theory Spec2Isabelle
  imports Main "HOL-Library.Word" "HOL-Library.Code_Target_Nat"
begin

unbundle bit_operations_syntax

section \<open>Binary BCH codec: a shallow embedding of \<^verbatim>\<open>bch.c\<close>\<close>

text \<open>
  The development follows \<^verbatim>\<open>src/bchlib-sys/src/bch/bch.c\<close> function by function and keeps
  its names. Conventions:

  \<^item> field elements of \<open>GF(2 ^ m)\<close>, table entries, logarithms, array indices and error locations
    are \<open>nat\<close>; every such value of the program stays below \<open>2 ^ 16\<close> (\<open>m \<le> 15\<close>), so the
    C types \<^verbatim>\<open>uint16_t\<close> and \<^verbatim>\<open>unsigned int\<close> never wrap on them. Where the C text converts
    between \<^verbatim>\<open>int\<close> and \<^verbatim>\<open>unsigned int\<close> the conversion is written out (\<open>mod 2 ^ 32\<close>,
    \<open>to_int32\<close>);
  \<^item> the 32-bit ecc words are \<open>32 word\<close>, bytes are \<open>8 word\<close>;
  \<^item> an array is a list; a C loop that updates an array in place is a \<open>fold\<close> or a
    recursive function over the list, in the order of the C loop;
  \<^item> \<^verbatim>\<open>struct bch_control\<close> is declared in \<^verbatim>\<open>bch.h\<close>; its fields are taken from their
    uses in \<^verbatim>\<open>bch.c\<close>. The members \<^verbatim>\<open>m\<close>, \<^verbatim>\<open>n\<close>, \<^verbatim>\<open>t\<close> are named after the accessor macros
    \<^verbatim>\<open>GF_M\<close>, \<^verbatim>\<open>GF_N\<close>, \<^verbatim>\<open>GF_T\<close>;
  \<^item> \<^verbatim>\<open>bch_alloc\<close> is modelled as always succeeding and returning zero-filled storage (the
    static arena \<^verbatim>\<open>alloc_heap\<close> is zero-initialised by the C runtime). The decoder's
    polynomial scratch areas (\<^verbatim>\<open>elp\<close>, \<^verbatim>\<open>poly_2t\<close>, \<^verbatim>\<open>cache\<close>) are written before they are
    read in every call, so they are local values of the functions here and not fields of
    the record; \<^verbatim>\<open>ecc_buf\<close>, \<^verbatim>\<open>ecc_buf2\<close> and \<^verbatim>\<open>syn\<close> are fields.
\<close>

subsection \<open>Machine-level helpers\<close>

type_synonym u8 = "8 word"
type_synonym u32 = "32 word"

definition DIV_ROUND_UP :: "nat \<Rightarrow> nat \<Rightarrow> nat" where
  "DIV_ROUND_UP a d = (a + d - 1) div d"

text \<open>\<^verbatim>\<open>FLS\<close>: the cascade of five tests of the source, on a 32-bit value.\<close>

definition FLS :: "nat \<Rightarrow> nat" where
  "FLS x0 =
    (let (r, x) = (0::nat, x0);
         (r, x) = (if x \<ge> 2 ^ 16 then (r + 16, drop_bit 16 x) else (r, x));
         (r, x) = (if x \<ge> 2 ^ 8 then (r + 8, drop_bit 8 x) else (r, x));
         (r, x) = (if x \<ge> 2 ^ 4 then (r + 4, drop_bit 4 x) else (r, x));
         (r, x) = (if x \<ge> 2 ^ 2 then (r + 2, drop_bit 2 x) else (r, x));
         (r, x) = (if x \<ge> 2 ^ 1 then (r + 1, drop_bit 1 x) else (r, x))
     in r + x)"

text \<open>
  \<^verbatim>\<open>deg(poly) = FLS(poly) - 1\<close>. The source only calls it on non-zero values (for \<open>0\<close> the C
  result is \<open>-1\<close>; here the subtraction stops at \<open>0\<close>).
\<close>

definition deg :: "nat \<Rightarrow> nat" where
  "deg poly = FLS poly - 1"

definition parity :: "nat \<Rightarrow> nat" where
  "parity x0 =
    (let x = x0 XOR drop_bit 1 x0;
         x = x XOR drop_bit 2 x;
         x = ((x AND 0x11111111) * 0x11111111) mod 2 ^ 32
     in drop_bit 28 x AND 1)"

text \<open>\<^verbatim>\<open>int bi = errloc[i]\<close>: an \<^verbatim>\<open>unsigned int\<close> read as a two's complement \<^verbatim>\<open>int\<close>.\<close>

definition to_int32 :: "nat \<Rightarrow> int" where
  "to_int32 x = sint (word_of_nat x :: u32)"

subsection \<open>The control structure and Galois field arithmetic\<close>

record bch_control =
  GF_M :: nat
  GF_N :: nat
  GF_T :: nat
  ecc_bits :: nat
  ecc_bytes :: nat
  a_pow_tab :: "nat list"
  a_log_tab :: "nat list"
  mod8_tab :: "u32 list"
  ecc_buf :: "u32 list"
  ecc_buf2 :: "u32 list"
  xi_tab :: "nat list"
  syn :: "nat list"

definition BCH_ECC_WORDS :: "bch_control \<Rightarrow> nat" where
  "BCH_ECC_WORDS bch = DIV_ROUND_UP (GF_M bch * GF_T bch) 32"

definition BCH_ECC_BYTES :: "bch_control \<Rightarrow> nat" where
  "BCH_ECC_BYTES bch = DIV_ROUND_UP (GF_M bch * GF_T bch) 8"

text \<open>
  \<^verbatim>\<open>modulo\<close>: \<^verbatim>\<open>while (v >= n) { v -= n; v = (v & n) + (v >> GF_M(bch)); }\<close>. The C loop
  terminates exactly when \<open>n\<close> and \<open>m\<close> are positive, which holds for every codec
  (\<open>m \<ge> 5\<close>, \<open>n = 2 ^ m - 1\<close>); the two extra conjuncts of the test make the recursion total on
  all records.
\<close>

function modulo :: "bch_control \<Rightarrow> nat \<Rightarrow> nat" where
  "modulo bch v =
     (if GF_N bch \<le> v \<and> 0 < GF_N bch \<and> 0 < GF_M bch
      then modulo bch (((v - GF_N bch) AND GF_N bch) + drop_bit (GF_M bch) (v - GF_N bch))
      else v)"
  by pat_completeness auto
termination
proof (relation "measure (\<lambda>(bch, v). v)")
  show "wf (measure (\<lambda>(bch, v). v))" by simp
next
  fix bch :: bch_control and v :: nat
  assume a: "GF_N bch \<le> v \<and> 0 < GF_N bch \<and> 0 < GF_M bch"
  define w where "w = v - GF_N bch"
  have "w AND GF_N bch \<le> GF_N bch"
    by (simp add: and_nat_def nat_le_iff)
  moreover have "drop_bit (GF_M bch) w \<le> w"
    by (simp add: drop_bit_eq_div)
  moreover have "w AND GF_N bch < GF_N bch \<or> drop_bit (GF_M bch) w < w"
  proof (cases "w = 0")
    case True
    then show ?thesis using a by simp
  next
    case False
    have "(1::nat) < 2 ^ GF_M bch"
      using a one_less_power [of "2::nat" "GF_M bch"] by auto
    with False have "w div 2 ^ GF_M bch < w"
      by (intro div_less_dividend) auto
    then show ?thesis by (simp add: drop_bit_eq_div)
  qed
  ultimately have "(w AND GF_N bch) + drop_bit (GF_M bch) w < w + GF_N bch"
    by linarith
  then show "((bch, (v - GF_N bch AND GF_N bch) + drop_bit (GF_M bch) (v - GF_N bch)), bch, v)
       \<in> measure (\<lambda>(bch, v). v)"
    using a by (simp add: w_def)
qed
declare modulo.simps [simp del]

definition mod_s :: "bch_control \<Rightarrow> nat \<Rightarrow> nat" where
  "mod_s bch v = (if v < GF_N bch then v else v - GF_N bch)"

definition gf_mul :: "bch_control \<Rightarrow> nat \<Rightarrow> nat \<Rightarrow> nat" where
  "gf_mul bch a b =
     (if a \<noteq> 0 \<and> b \<noteq> 0
      then a_pow_tab bch ! mod_s bch (a_log_tab bch ! a + a_log_tab bch ! b) else 0)"

definition gf_sqr :: "bch_control \<Rightarrow> nat \<Rightarrow> nat" where
  "gf_sqr bch a = (if a \<noteq> 0 then a_pow_tab bch ! mod_s bch (2 * (a_log_tab bch ! a)) else 0)"

definition gf_div :: "bch_control \<Rightarrow> nat \<Rightarrow> nat \<Rightarrow> nat" where
  "gf_div bch a b =
     (if a \<noteq> 0
      then a_pow_tab bch ! mod_s bch (a_log_tab bch ! a + GF_N bch - a_log_tab bch ! b) else 0)"

definition gf_inv :: "bch_control \<Rightarrow> nat \<Rightarrow> nat" where
  "gf_inv bch a = a_pow_tab bch ! (GF_N bch - a_log_tab bch ! a)"

text \<open>\<^verbatim>\<open>a_pow(bch, int i)\<close> passes its \<^verbatim>\<open>int\<close> to \<^verbatim>\<open>modulo\<close>, which takes an \<^verbatim>\<open>unsigned int\<close>.\<close>

definition a_pow :: "bch_control \<Rightarrow> int \<Rightarrow> nat" where
  "a_pow bch i = a_pow_tab bch ! modulo bch (nat (i mod 2 ^ 32))"

definition a_log :: "bch_control \<Rightarrow> nat \<Rightarrow> nat" where
  "a_log bch x = a_log_tab bch ! x"

definition a_ilog :: "bch_control \<Rightarrow> nat \<Rightarrow> nat" where
  "a_ilog bch x = mod_s bch (GF_N bch - a_log_tab bch ! x)"

text \<open>\<^verbatim>\<open>struct gf_poly\<close>: a degree and its coefficients, lowest first.\<close>

record gf_poly =
  poly_deg :: nat
  poly_c :: "nat list"

subsection \<open>Facts about \<^verbatim>\<open>FLS\<close> and \<^verbatim>\<open>deg\<close>\<close>

lemma fls_stage:
  fixes x r s x0 :: nat
  assumes "x0 div 2 ^ r = x" "x < 2 ^ (2 * s)" "0 < x"
  shows "(if x \<ge> 2 ^ s
          then x0 div 2 ^ (r + s) = drop_bit s x \<and> drop_bit s x < 2 ^ s \<and> 0 < drop_bit s x
          else x0 div 2 ^ r = x \<and> x < 2 ^ s \<and> 0 < x)"
proof (cases "x \<ge> 2 ^ s")
  case True
  have "x0 div 2 ^ (r + s) = x div 2 ^ s"
    using assms(1) by (simp add: power_add div_mult2_eq)
  moreover have "x div 2 ^ s < 2 ^ s"
    using assms(2) by (simp add: less_mult_imp_div_less mult_2 power_add)
  moreover have "0 < x div 2 ^ s"
    using True by (simp add: div_greater_zero_iff)
  ultimately show ?thesis using True by (simp add: drop_bit_eq_div)
next
  case False
  then show ?thesis using assms by simp
qed

lemma FLS_bounds:
  assumes "0 < x" "x < 2 ^ 32"
  shows "2 ^ (FLS x - 1) \<le> x \<and> x < 2 ^ FLS x"
proof -
  define r1 where "r1 = (if x \<ge> 2 ^ 16 then 16 else 0::nat)"
  define x1 where "x1 = (if x \<ge> 2 ^ 16 then drop_bit 16 x else x)"
  define r2 where "r2 = (if x1 \<ge> 2 ^ 8 then r1 + 8 else r1)"
  define x2 where "x2 = (if x1 \<ge> 2 ^ 8 then drop_bit 8 x1 else x1)"
  define r3 where "r3 = (if x2 \<ge> 2 ^ 4 then r2 + 4 else r2)"
  define x3 where "x3 = (if x2 \<ge> 2 ^ 4 then drop_bit 4 x2 else x2)"
  define r4 where "r4 = (if x3 \<ge> 2 ^ 2 then r3 + 2 else r3)"
  define x4 where "x4 = (if x3 \<ge> 2 ^ 2 then drop_bit 2 x3 else x3)"
  define r5 where "r5 = (if x4 \<ge> 2 ^ 1 then r4 + 1 else r4)"
  define x5 where "x5 = (if x4 \<ge> 2 ^ 1 then drop_bit 1 x4 else x4)"
  have F: "FLS x = r5 + x5"
    unfolding FLS_def Let_def r5_def x5_def r4_def x4_def r3_def x3_def r2_def x2_def r1_def x1_def
    by (simp split: if_splits)
  have i1: "x div 2 ^ r1 = x1 \<and> x1 < 2 ^ 16 \<and> 0 < x1"
    using fls_stage [of x 0 x 16] assms by (simp add: r1_def x1_def split: if_splits)
  have i2: "x div 2 ^ r2 = x2 \<and> x2 < 2 ^ 8 \<and> 0 < x2"
    using fls_stage [of x r1 x1 8] i1 by (simp add: r2_def x2_def split: if_splits)
  have i3: "x div 2 ^ r3 = x3 \<and> x3 < 2 ^ 4 \<and> 0 < x3"
    using fls_stage [of x r2 x2 4] i2 by (simp add: r3_def x3_def split: if_splits)
  have i4: "x div 2 ^ r4 = x4 \<and> x4 < 2 ^ 2 \<and> 0 < x4"
    using fls_stage [of x r3 x3 2] i3 by (simp add: r4_def x4_def split: if_splits)
  have i5: "x div 2 ^ r5 = x5 \<and> x5 < 2 ^ 1 \<and> 0 < x5"
    using fls_stage [of x r4 x4 1] i4 by (simp add: r5_def x5_def split: if_splits)
  then have x5: "x5 = 1" by simp
  with i5 have d: "x div 2 ^ r5 = 1" by simp
  have "2 ^ r5 \<le> x"
    using d by (metis div_greater_zero_iff zero_less_one)
  moreover have "x < 2 ^ (r5 + 1)"
  proof (rule ccontr)
    assume "\<not> x < 2 ^ (r5 + 1)"
    then have "2 ^ r5 * 2 \<le> x" by simp
    then have "2 \<le> x div 2 ^ r5"
      by (simp add: less_eq_div_iff_mult_less_eq)
    with d show False by simp
  qed
  ultimately show ?thesis using F x5 by simp
qed

lemma deg_bounds:
  assumes "0 < x" "x < 2 ^ 32"
  shows "2 ^ deg x \<le> x" "x < 2 ^ (deg x + 1)"
proof -
  have "0 < FLS x"
    using FLS_bounds [OF assms] assms(1) by (metis gr0I less_one linorder_not_le power_0)
  then show "2 ^ deg x \<le> x" "x < 2 ^ (deg x + 1)"
    using FLS_bounds [OF assms] by (simp_all add: deg_def)
qed

lemma xor_top_bit_less:
  fixes x :: nat
  assumes "2 ^ d \<le> x" "x < 2 ^ (d + 1)"
  shows "x XOR 2 ^ d < x"
proof -
  have "x div 2 ^ d < 2" using assms(2) by (simp add: less_mult_imp_div_less)
  moreover have "0 < x div 2 ^ d" using assms(1) by (simp add: div_greater_zero_iff)
  ultimately have d1: "x div 2 ^ d = 1" by simp
  have b: "bit x d" by (simp add: bit_iff_odd d1)
  have hi: "\<not> bit x n" if "d < n" for n
  proof -
    have "(2::nat) ^ (d + 1) \<le> 2 ^ n" using that by (intro power_increasing) simp_all
    then have "x < 2 ^ n" using assms(2) by simp
    then show ?thesis by (simp add: bit_iff_odd)
  qed
  have "x XOR 2 ^ d = take_bit d x"
  proof (rule bit_eqI)
    fix n
    show "bit (x XOR 2 ^ d) n = bit (take_bit d x) n"
      using b hi [of n] by (cases "n < d"; cases "n = d") (auto simp: bit_simps)
  qed
  also have "\<dots> < 2 ^ d" by simp
  finally show ?thesis using assms(1) by simp
qed

lemma clear_top_bit_measure:
  fixes w :: u32
  assumes "w \<noteq> 0"
  shows "unat (w XOR 2 ^ deg (unat w)) < unat w"
proof -
  have pos: "0 < unat w" using assms by (simp add: unat_gt_0)
  have lt: "unat w < 2 ^ 32" using unsigned_less [of w] by simp
  note db = deg_bounds [OF pos lt]
  have dlt: "deg (unat w) < 32"
  proof (rule ccontr)
    assume "\<not> deg (unat w) < 32"
    then have "(2::nat) ^ 32 \<le> 2 ^ deg (unat w)" by (intro power_increasing) simp_all
    with db(1) lt show False by simp
  qed
  have "unat (push_bit (deg (unat w)) 1 :: u32) = 2 ^ deg (unat w)"
    using dlt unsigned_push_bit_eq [of "deg (unat w)" "1::u32", where ?'a = nat]
    by (simp add: take_bit_nat_eq_self)
  then have "unat (w XOR push_bit (deg (unat w)) 1) = unat w XOR 2 ^ deg (unat w)"
    by (simp only: unsigned_xor_eq)
  also have "\<dots> < unat w" by (rule xor_top_bit_less [OF db])
  finally show ?thesis by simp
qed

subsection \<open>Construction: \<^verbatim>\<open>build_gf_tables\<close>\<close>

text \<open>
  One multiplication by \<open>\<alpha>\<close>: \<^verbatim>\<open>x <<= 1; if (x & k) x ^= poly;\<close>.
\<close>

definition gf_next :: "nat \<Rightarrow> nat \<Rightarrow> nat \<Rightarrow> nat" where
  "gf_next poly k x = (let x = push_bit 1 x in if x AND k \<noteq> 0 then x XOR poly else x)"

text \<open>
  The loop \<^verbatim>\<open>for (i = 0; i < GF_N(bch); i++)\<close> of \<^verbatim>\<open>build_gf_tables\<close> on the two tables;
  \<open>None\<close> is the early \<^verbatim>\<open>return -1\<close>.
\<close>

function gf_tables_loop ::
  "nat \<Rightarrow> nat \<Rightarrow> nat \<Rightarrow> nat \<Rightarrow> nat \<Rightarrow> nat list \<times> nat list \<Rightarrow> (nat list \<times> nat list) option" where
  "gf_tables_loop n poly k i x tabs =
     (if i < n then
        (case tabs of (pw, lg) \<Rightarrow>
           let pw = pw[i := x];
               lg = lg[x := i]
           in if i \<noteq> 0 \<and> x = 1 then None
              else gf_tables_loop n poly k (i + 1) (gf_next poly k x) (pw, lg))
      else Some tabs)"
  by pat_completeness auto
termination
  by (relation "measure (\<lambda>(n, poly, k, i, x, tabs). n - i)") auto
declare gf_tables_loop.simps [simp del]

definition build_gf_tables :: "bch_control \<Rightarrow> nat \<Rightarrow> bch_control option" where
  "build_gf_tables bch poly =
     (let k = 2 ^ deg poly in
      if k \<noteq> 2 ^ GF_M bch then None
      else case gf_tables_loop (GF_N bch) poly k 0 1 (a_pow_tab bch, a_log_tab bch) of
             None \<Rightarrow> None
           | Some (pw, lg) \<Rightarrow>
               Some (bch\<lparr>a_pow_tab := pw[GF_N bch := 1], a_log_tab := lg[0 := 0]\<rparr>))"

subsection \<open>Construction: \<^verbatim>\<open>compute_generator_polynomial\<close>\<close>

text \<open>The inner loop \<^verbatim>\<open>for (j = 0, r = 2*i+1; j < m; j++) { roots[r] = 1; r = mod_s(bch, 2*r); }\<close>.\<close>

fun mark_coset :: "bch_control \<Rightarrow> nat \<Rightarrow> nat \<Rightarrow> nat list \<Rightarrow> nat list" where
  "mark_coset bch 0 r roots = roots"
| "mark_coset bch (Suc j) r roots = mark_coset bch j (mod_s bch (2 * r)) (roots[r := 1])"

definition enumerate_roots :: "bch_control \<Rightarrow> nat list" where
  "enumerate_roots bch =
     fold (\<lambda>i roots. mark_coset bch (GF_M bch) (2 * i + 1) roots) [0..<GF_T bch]
       (replicate (GF_N bch + 1) 0)"

text \<open>
  \<^verbatim>\<open>for (j = g->deg; j > 0; j--) g->c[j] = gf_mul(bch, g->c[j], r)^g->c[j-1];\<close>
  (the argument counts \<open>j\<close> down).
\<close>

fun mul_by_root :: "bch_control \<Rightarrow> nat \<Rightarrow> nat \<Rightarrow> nat list \<Rightarrow> nat list" where
  "mul_by_root bch r 0 c = c"
| "mul_by_root bch r (Suc j) c =
     mul_by_root bch r j (c[Suc j := gf_mul bch (c ! Suc j) r XOR c ! j])"

definition gen_step :: "bch_control \<Rightarrow> nat list \<Rightarrow> nat \<Rightarrow> gf_poly \<Rightarrow> gf_poly" where
  "gen_step bch roots i g =
     (if roots ! i \<noteq> 0 then
        (let r = a_pow_tab bch ! i;
             c = (poly_c g)[poly_deg g + 1 := 1];
             c = mul_by_root bch r (poly_deg g) c;
             c = c[0 := gf_mul bch (c ! 0) r]
         in \<lparr>poly_deg = poly_deg g + 1, poly_c = c\<rparr>)
      else g)"

definition genpoly_word :: "nat list \<Rightarrow> nat \<Rightarrow> nat \<Rightarrow> u32" where
  "genpoly_word c n nbits =
     fold (\<lambda>j word. if c ! (n - 1 - j) \<noteq> 0 then word OR push_bit (31 - j) 1 else word)
       [0..<nbits] 0"

function genpoly_words :: "nat list \<Rightarrow> nat \<Rightarrow> u32 list" where
  "genpoly_words c n =
     (if 0 < n then
        (let nbits = (if n > 32 then 32 else n)
         in genpoly_word c n nbits # genpoly_words c (n - nbits))
      else [])"
  by pat_completeness auto
termination
  by (relation "measure (\<lambda>(c, n). n)") auto
declare genpoly_words.simps [simp del]

definition generator_poly :: "bch_control \<Rightarrow> gf_poly" where
  "generator_poly bch =
     fold (gen_step bch (enumerate_roots bch)) [0..<GF_N bch]
       \<lparr>poly_deg = 0, poly_c = (replicate (GF_M bch * GF_T bch + 1) 0)[0 := 1]\<rparr>"

text \<open>The result is the codec with \<^verbatim>\<open>ecc_bits\<close> set, and the words of \<^verbatim>\<open>genpoly\<close>.\<close>

definition compute_generator_polynomial :: "bch_control \<Rightarrow> bch_control \<times> u32 list" where
  "compute_generator_polynomial bch =
     (let g = generator_poly bch;
          genpoly = genpoly_words (poly_c g) (poly_deg g + 1)
      in (bch\<lparr>ecc_bits := poly_deg g\<rparr>, genpoly))"

subsection \<open>Construction: \<^verbatim>\<open>build_mod8_tables\<close>\<close>

text \<open>
  The body of \<^verbatim>\<open>while (data)\<close> for one table row. The C loop ends because \<open>g\<close> is
  left-justified with leading coefficient 1, so each round clears the top bit of \<open>data\<close>;
  where \<open>data\<close> would not decrease (never for a generator polynomial) the C loop would not
  end, and the recursion stops.
\<close>

function mod8_row_loop :: "u32 list \<Rightarrow> nat \<Rightarrow> nat \<Rightarrow> u32 \<Rightarrow> u32 list \<Rightarrow> u32 list" where
  "mod8_row_loop g ecclen plen data tab =
     (if data \<noteq> 0 then
        (let d = deg (unat data);
             data' = data XOR drop_bit (31 - d) (g ! 0);
             tab = fold (\<lambda>j tab.
                      let hi = (if d < 31 then push_bit (d + 1) (g ! j) else 0);
                          lo = (if j + 1 < plen then drop_bit (31 - d) (g ! (j + 1)) else 0)
                      in tab[j := tab ! j XOR (hi OR lo)]) [0..<ecclen] tab
         in if data' < data then mod8_row_loop g ecclen plen data' tab else tab)
      else tab)"
  by pat_completeness auto
termination
  by (relation "measure (\<lambda>(g, ecclen, plen, data, tab). unat data)")
     (auto simp: word_less_nat_alt)
declare mod8_row_loop.simps [simp del]

text \<open>Row \<open>(b, i)\<close> of the table: the remainder of \<open>i * X^(8b + deg g)\<close>, in \<open>l\<close> words.\<close>

definition mod8_row :: "bch_control \<Rightarrow> u32 list \<Rightarrow> nat \<Rightarrow> nat \<Rightarrow> u32 list" where
  "mod8_row bch g b i =
     mod8_row_loop g (DIV_ROUND_UP (ecc_bits bch) 32) (DIV_ROUND_UP (ecc_bits bch + 1) 32)
       (push_bit (8 * b) (word_of_nat i)) (replicate (BCH_ECC_WORDS bch) 0)"

text \<open>
  The table in memory order: row \<open>(b, i)\<close> starts at word \<open>(b * 256 + i) * l\<close>. The rows do not
  depend on each other, so the order in which the C loops fill them does not matter.
\<close>

definition build_mod8_tables :: "bch_control \<Rightarrow> u32 list \<Rightarrow> bch_control" where
  "build_mod8_tables bch g =
     bch\<lparr>mod8_tab :=
            concat (map (\<lambda>b. concat (map (\<lambda>i. mod8_row bch g b i) [0..<256])) [0..<4])\<rparr>"

subsection \<open>Construction: \<^verbatim>\<open>build_deg2_base\<close>\<close>

text \<open>First loop: \<open>ak = \<alpha> ^ i\<close> for the least \<open>i < m\<close> with \<open>Tr(\<alpha> ^ i) \<noteq> 0\<close>, else \<open>0\<close>.\<close>

definition find_ak :: "bch_control \<Rightarrow> nat" where
  "find_ak bch =
     (case filter (\<lambda>i. fold (\<lambda>j sum. sum XOR a_pow bch (int i * 2 ^ j)) [0..<GF_M bch] 0 \<noteq> 0)
             [0..<GF_M bch] of
        [] \<Rightarrow> 0
      | i # _ \<Rightarrow> a_pow_tab bch ! i)"

text \<open>The two rounds of \<^verbatim>\<open>for (i = 0; i < 2; i++)\<close>: the row \<open>r\<close> that \<open>x\<close> fills, if any.\<close>

definition deg2_try :: "bch_control \<Rightarrow> nat \<Rightarrow> nat list \<Rightarrow> nat \<Rightarrow> nat option" where
  "deg2_try bch ak xi y =
     (let r = a_log bch y in
      if y \<noteq> 0 \<and> r < GF_M bch \<and> xi ! r = 0 then Some r
      else let y = y XOR ak; r = a_log bch y in
           if y \<noteq> 0 \<and> r < GF_M bch \<and> xi ! r = 0 then Some r else None)"

text \<open>The state is \<^verbatim>\<open>xi_tab\<close>, the local flags \<^verbatim>\<open>xi\<close> and \<^verbatim>\<open>remaining\<close>.\<close>

function deg2_base_loop ::
  "bch_control \<Rightarrow> nat \<Rightarrow> nat \<Rightarrow> nat list \<times> nat list \<times> nat \<Rightarrow> nat list \<times> nat list \<times> nat" where
  "deg2_base_loop bch ak x st =
     (case st of (xt, xi, remaining) \<Rightarrow>
      if x \<le> GF_N bch \<and> remaining \<noteq> 0 then
        (let y = gf_sqr bch x XOR x in
         case deg2_try bch ak xi y of
           Some r \<Rightarrow> deg2_base_loop bch ak (x + 1) (xt[r := x], xi[r := 1], remaining - 1)
         | None \<Rightarrow> deg2_base_loop bch ak (x + 1) (xt, xi, remaining))
      else st)"
  by pat_completeness auto
termination
  by (relation "measure (\<lambda>(bch, ak, x, st). GF_N bch + 1 - x)") auto
declare deg2_base_loop.simps [simp del]

definition build_deg2_base :: "bch_control \<Rightarrow> bch_control option" where
  "build_deg2_base bch =
     (case deg2_base_loop bch (find_ak bch) 0
             (xi_tab bch, replicate (GF_M bch) 0, GF_M bch) of
        (xt, xi, remaining) \<Rightarrow>
          if remaining \<noteq> 0 then None else Some (bch\<lparr>xi_tab := xt\<rparr>))"

subsection \<open>Construction: \<^verbatim>\<open>init_bch\<close>\<close>

definition prim_poly_tab :: "nat list" where
  "prim_poly_tab =
     [0x25, 0x43, 0x83, 0x11d, 0x211, 0x409, 0x805, 0x1053, 0x201b, 0x402b, 0x8003]"

text \<open>
  The structure after the allocations of \<^verbatim>\<open>init_bch\<close>, before any table is built. Two
  assumptions are made here. Every allocation succeeds (\<^verbatim>\<open>bch_alloc\<close> returning \<^verbatim>\<open>NULL\<close> is
  not modelled). The storage is zero, as the static arena \<^verbatim>\<open>alloc_heap\<close> delivers it; \<^verbatim>\<open>init_bch\<close>
  clears the structure but not the tables, so with \<^verbatim>\<open>malloc\<close> the table entries that
  \<^verbatim>\<open>build_gf_tables\<close> does not write are indeterminate. For a primitive polynomial every entry
  of both field tables is written; entries are left unwritten only when a polynomial that is
  not primitive is accepted.
\<close>

definition alloc_bch :: "int \<Rightarrow> int \<Rightarrow> bch_control" where
  "alloc_bch m t =
     (let n = 2 ^ nat m - 1;
          words = DIV_ROUND_UP (nat (m * t)) 32
      in \<lparr>GF_M = nat m, GF_N = n, GF_T = nat t, ecc_bits = 0,
          ecc_bytes = DIV_ROUND_UP (nat (m * t)) 8,
          a_pow_tab = replicate (1 + n) 0, a_log_tab = replicate (1 + n) 0,
          mod8_tab = replicate (words * 1024) 0,
          ecc_buf = replicate words 0, ecc_buf2 = replicate words 0,
          xi_tab = replicate (nat m) 0, syn = replicate (2 * nat t) 0\<rparr>)"

text \<open>
  \<open>None\<close> is the \<^verbatim>\<open>NULL\<close> result. \<open>m\<close> and \<open>t\<close> are C \<^verbatim>\<open>int\<close>s. The product \<open>m * t\<close> is evaluated
  only for \<open>5 \<le> m \<le> 15\<close> and \<open>t \<ge> 1\<close>, and it is taken in the integers: the definition models
  the calls with \<open>m * t < 2 ^ 31\<close>. For a larger product the C multiplication overflows, which
  is undefined behaviour, and the value \<open>None\<close> of this definition says nothing about the code.
  A codec is only ever returned for \<open>m * t < 2 ^ m - 1\<close>, far below that bound.
\<close>

definition init_bch :: "int \<Rightarrow> int \<Rightarrow> nat \<Rightarrow> bch_control option" where
  "init_bch m t prim_poly =
     (if m < 5 \<or> m > 15 then None
      else if t < 1 \<or> m * t \<ge> 2 ^ nat m - 1 then None
      else
        (let prim_poly = (if prim_poly = 0 then prim_poly_tab ! nat (m - 5) else prim_poly)
         in case build_gf_tables (alloc_bch m t) prim_poly of
              None \<Rightarrow> None
            | Some bch \<Rightarrow>
                (case compute_generator_polynomial bch of
                   (bch, genpoly) \<Rightarrow> build_deg2_base (build_mod8_tables bch genpoly))))"

subsection \<open>Encoder\<close>

text \<open>Four bytes in memory order as a big-endian word (\<^verbatim>\<open>CPU_TO_BE32\<close>, \<^verbatim>\<open>load_ecc8\<close>).\<close>

definition be32 :: "u8 \<Rightarrow> u8 \<Rightarrow> u8 \<Rightarrow> u8 \<Rightarrow> u32" where
  "be32 b0 b1 b2 b3 =
     push_bit 24 (ucast b0) OR push_bit 16 (ucast b1) OR push_bit 8 (ucast b2) OR ucast b3"

text \<open>The four bytes of a word, most significant first (\<^verbatim>\<open>store_ecc8\<close>).\<close>

definition word_bytes :: "u32 \<Rightarrow> u8 list" where
  "word_bytes w = [ucast (drop_bit 24 w), ucast (drop_bit 16 w AND 0xff),
                   ucast (drop_bit 8 w AND 0xff), ucast (w AND 0xff)]"

text \<open>One round of \<^verbatim>\<open>while (len--)\<close> in \<^verbatim>\<open>encode_bch_unaligned\<close>.\<close>

definition encode_byte :: "bch_control \<Rightarrow> u8 \<Rightarrow> u32 list \<Rightarrow> u32 list" where
  "encode_byte bch byte ecc =
     (let l = BCH_ECC_WORDS bch - 1;
          p = (l + 1) * unat ((drop_bit 24 (ecc ! 0) XOR ucast byte) AND 0xff)
      in map (\<lambda>i. if i < l
                   then (push_bit 8 (ecc ! i) OR drop_bit 24 (ecc ! (i + 1)))
                        XOR mod8_tab bch ! (p + i)
                   else push_bit 8 (ecc ! l) XOR mod8_tab bch ! (p + l)) [0..<l + 1]
         @ drop (l + 1) ecc)"

definition encode_bch_unaligned :: "bch_control \<Rightarrow> u8 list \<Rightarrow> u32 list \<Rightarrow> u32 list" where
  "encode_bch_unaligned bch data ecc = fold (encode_byte bch) data ecc"

text \<open>
  \<^verbatim>\<open>load_ecc8\<close>: \<open>nwords\<close> full words, then the remaining \<open>BCH_ECC_BYTES - 4 * nwords\<close> bytes
  zero-padded to a word. (\<open>BCH_ECC_WORDS\<close> is positive for every codec.)
\<close>

definition load_ecc8 :: "bch_control \<Rightarrow> u8 list \<Rightarrow> u32 list" where
  "load_ecc8 bch src =
     (let nwords = BCH_ECC_WORDS bch - 1;
          pad = take 4 (take (BCH_ECC_BYTES bch - 4 * nwords) (drop (4 * nwords) src)
                        @ replicate 4 0)
      in map (\<lambda>i. be32 (src ! (4 * i)) (src ! (4 * i + 1)) (src ! (4 * i + 2)) (src ! (4 * i + 3)))
           [0..<nwords]
         @ [be32 (pad ! 0) (pad ! 1) (pad ! 2) (pad ! 3)])"

text \<open>\<^verbatim>\<open>store_ecc8\<close> overwrites the first \<open>BCH_ECC_BYTES\<close> bytes of \<open>dst\<close>.\<close>

definition store_ecc8 :: "bch_control \<Rightarrow> u8 list \<Rightarrow> u32 list \<Rightarrow> u8 list" where
  "store_ecc8 bch dst src =
     (let nwords = BCH_ECC_WORDS bch - 1;
          pad = word_bytes (src ! nwords)
      in concat (map (\<lambda>i. word_bytes (src ! i)) [0..<nwords])
         @ take (BCH_ECC_BYTES bch - 4 * nwords) pad
         @ drop (BCH_ECC_BYTES bch) dst)"

text \<open>One round of \<^verbatim>\<open>while (mlen--)\<close> in \<^verbatim>\<open>encode_bch\<close>, on the \<open>i\<close>-th aligned word.\<close>

definition encode_word :: "bch_control \<Rightarrow> u8 list \<Rightarrow> nat \<Rightarrow> u32 list \<Rightarrow> u32 list" where
  "encode_word bch pdata i r =
     (let l = BCH_ECC_WORDS bch - 1;
          tab = mod8_tab bch;
          w = r ! 0 XOR be32 (pdata ! (4 * i)) (pdata ! (4 * i + 1)) (pdata ! (4 * i + 2))
                         (pdata ! (4 * i + 3));
          p0 = (l + 1) * unat (w AND 0xff);
          p1 = 256 * (l + 1) + (l + 1) * unat (drop_bit 8 w AND 0xff);
          p2 = 2 * 256 * (l + 1) + (l + 1) * unat (drop_bit 16 w AND 0xff);
          p3 = 3 * 256 * (l + 1) + (l + 1) * unat (drop_bit 24 w AND 0xff)
      in map (\<lambda>i. if i < l
                   then r ! (i + 1) XOR tab ! (p0 + i) XOR tab ! (p1 + i) XOR tab ! (p2 + i)
                        XOR tab ! (p3 + i)
                   else tab ! (p0 + l) XOR tab ! (p1 + l) XOR tab ! (p2 + l) XOR tab ! (p3 + l))
           [0..<l + 1]
         @ drop (l + 1) r)"

text \<open>
  The three phases of \<^verbatim>\<open>encode_bch\<close> on the word buffer: the bytes up to the first
  4-byte boundary, the aligned words, the remaining bytes. \<open>addr\<close> is the address of
  \<^verbatim>\<open>data\<close> (only \<open>addr mod 4\<close> matters); the first \<open>len\<close> bytes of \<open>data\<close> are read.
\<close>

definition encode_words :: "bch_control \<Rightarrow> nat \<Rightarrow> u8 list \<Rightarrow> nat \<Rightarrow> u32 list \<Rightarrow> u32 list" where
  "encode_words bch addr data0 len0 buf =
     (let data = take len0 data0;
          m = addr mod 4;
          mlen = (if m \<noteq> 0 then (if len0 < 4 - m then len0 else 4 - m) else 0);
          buf = (if m \<noteq> 0 then encode_bch_unaligned bch (take mlen data) buf else buf);
          data = drop mlen data;
          len = len0 - mlen;
          mlen = len div 4;
          r = fold (encode_word bch data) [0..<mlen] buf;
          data = drop (4 * mlen) data;
          len = len - 4 * mlen
      in if len \<noteq> 0 then encode_bch_unaligned bch data r else r)"

text \<open>
  \<^verbatim>\<open>encode_bch\<close>: \<open>ecc = None\<close> is the \<^verbatim>\<open>NULL\<close> pointer. The result is the codec (its
  \<^verbatim>\<open>ecc_buf\<close> holds the parity words) and the new contents of the caller's buffer.
\<close>

definition encode_bch ::
  "bch_control \<Rightarrow> nat \<Rightarrow> u8 list \<Rightarrow> nat \<Rightarrow> u8 list option \<Rightarrow> bch_control \<times> u8 list option" where
  "encode_bch bch addr data len ecc =
     (let buf = (case ecc of
                   Some e \<Rightarrow> load_ecc8 bch e
                 | None \<Rightarrow> replicate (BCH_ECC_WORDS bch - 1 + 1) 0);
          r = encode_words bch addr data len buf
      in (bch\<lparr>ecc_buf := r\<rparr>,
          case ecc of Some e \<Rightarrow> Some (store_ecc8 bch e r) | None \<Rightarrow> None))"

subsection \<open>Decoder: \<^verbatim>\<open>compute_syndromes\<close>\<close>

text \<open>
  \<^verbatim>\<open>while (poly) { i = deg(poly); for (j = 0; j < 2*t; j += 2) syn[j] ^= a_pow(bch, (j+1)*(i+s));
  poly ^= (1 << i); }\<close>; the inner \<open>j\<close> here is half the C index.
\<close>

function syn_poly_loop :: "bch_control \<Rightarrow> int \<Rightarrow> u32 \<Rightarrow> nat list \<Rightarrow> nat list" where
  "syn_poly_loop bch s poly sy =
     (if poly \<noteq> 0 then
        (let i = deg (unat poly);
             sy = fold (\<lambda>j sy. sy[2 * j := sy ! (2 * j)
                                  XOR a_pow bch ((2 * int j + 1) * (int i + s))])
                    [0..<GF_T bch] sy
         in syn_poly_loop bch s (poly XOR push_bit i 1) sy)
      else sy)"
  by pat_completeness auto
termination
  by (relation "measure (\<lambda>(bch, s, poly, sy). unat poly)")
     (auto simp: clear_top_bit_measure)
declare syn_poly_loop.simps [simp del]

text \<open>\<^verbatim>\<open>do { poly = *ecc++; s -= 32; ... } while (s > 0);\<close>\<close>

function syn_words_loop :: "bch_control \<Rightarrow> int \<Rightarrow> u32 list \<Rightarrow> nat list \<Rightarrow> nat list" where
  "syn_words_loop bch s ecc sy =
     (let poly = hd ecc;
          s = s - 32;
          sy = syn_poly_loop bch s poly sy
      in if s > 0 then syn_words_loop bch s (tl ecc) sy else sy)"
  by pat_completeness auto
termination
  by (relation "measure (\<lambda>(bch, s, ecc, sy). nat s)") auto
declare syn_words_loop.simps [simp del]

text \<open>The result is the buffer (its last word masked) and the \<open>2t\<close> syndromes.\<close>

definition compute_syndromes :: "bch_control \<Rightarrow> u32 list \<Rightarrow> u32 list \<times> nat list" where
  "compute_syndromes bch ecc0 =
     (let t = GF_T bch;
          s = ecc_bits bch;
          m = s mod 32;
          ecc = (if m \<noteq> 0
                 then ecc0[s div 32 := ecc0 ! (s div 32) AND NOT (push_bit (32 - m) 1 - 1)]
                 else ecc0);
          sy = syn_words_loop bch (int s) ecc (replicate (2 * t) 0);
          sy = fold (\<lambda>j sy. sy[2 * j + 1 := gf_sqr bch (sy ! j)]) [0..<t] sy
      in (ecc, sy))"

subsection \<open>Decoder: \<^verbatim>\<open>compute_error_locator_polynomial\<close>\<close>

text \<open>\<^verbatim>\<open>gf_poly_copy\<close> copies the degree and the coefficients \<open>0 .. deg\<close>.\<close>

definition gf_poly_copy :: "gf_poly \<Rightarrow> gf_poly \<Rightarrow> gf_poly" where
  "gf_poly_copy dst src =
     \<lparr>poly_deg = poly_deg src,
      poly_c = take (poly_deg src + 1) (poly_c src) @ drop (poly_deg src + 1) (poly_c dst)\<rparr>"

definition elp_update :: "bch_control \<Rightarrow> nat \<Rightarrow> nat \<Rightarrow> gf_poly \<Rightarrow> nat list \<Rightarrow> nat list" where
  "elp_update bch tmp k pelp c =
     fold (\<lambda>j c. if poly_c pelp ! j \<noteq> 0
                  then (let l = a_log bch (poly_c pelp ! j)
                        in c[j + k := c ! (j + k) XOR a_pow bch (int (tmp + l))])
                  else c)
       [0..<poly_deg pelp + 1] c"

definition next_discrepancy :: "bch_control \<Rightarrow> nat list \<Rightarrow> nat \<Rightarrow> gf_poly \<Rightarrow> nat" where
  "next_discrepancy bch sy i elp =
     fold (\<lambda>j d. d XOR gf_mul bch (poly_c elp ! j) (sy ! (2 * i + 2 - j)))
       [1..<poly_deg elp + 1] (sy ! (2 * i + 2))"

text \<open>
  The loop state is \<^verbatim>\<open>(elp, pelp, pd, pp, d)\<close>. The loop test \<^verbatim>\<open>elp->deg <= t\<close> is the guard
  of the step: once it fails nothing changes any more.
\<close>

type_synonym bm_state = "gf_poly \<times> gf_poly \<times> nat \<times> int \<times> nat"

definition bm_step :: "bch_control \<Rightarrow> nat list \<Rightarrow> nat \<Rightarrow> bm_state \<Rightarrow> bm_state" where
  "bm_step bch sy i st =
     (case st of (elp, pelp, pd, pp, d) \<Rightarrow>
      if poly_deg elp \<le> GF_T bch then
        (let (elp, pelp, pd, pp) =
               (if d \<noteq> 0 then
                  (let k = nat (2 * int i - pp);
                       elp_copy = elp;
                       tmp = a_log bch d + GF_N bch - a_log bch pd;
                       elp = elp\<lparr>poly_c := elp_update bch tmp k pelp (poly_c elp)\<rparr>;
                       tmp = poly_deg pelp + k
                   in if tmp > poly_deg elp
                      then (elp\<lparr>poly_deg := tmp\<rparr>, gf_poly_copy pelp elp_copy, d, 2 * int i)
                      else (elp, pelp, pd, pp))
                else (elp, pelp, pd, pp));
             d = (if i < GF_T bch - 1 then next_discrepancy bch sy i elp else d)
         in (elp, pelp, pd, pp, d))
      else st)"

text \<open>
  The result is the return value (\<open>-1\<close> or the degree) and \<^verbatim>\<open>bch->elp\<close>. \<^verbatim>\<open>elp\<close> has room for
  \<open>3t + 2\<close> coefficients, \<^verbatim>\<open>pelp\<close> for \<open>2t + 1\<close>.
\<close>

definition compute_error_locator_polynomial :: "bch_control \<Rightarrow> nat list \<Rightarrow> int \<times> gf_poly" where
  "compute_error_locator_polynomial bch sy =
     (let t = GF_T bch;
          pelp = \<lparr>poly_deg = 0, poly_c = (replicate (2 * t + 1) 0)[0 := 1]\<rparr>;
          elp = \<lparr>poly_deg = 0, poly_c = (replicate (3 * t + 2) 0)[0 := 1]\<rparr>;
          (elp, pelp, pd, pp, d) = fold (bm_step bch sy) [0..<t] (elp, pelp, 1, - 1, sy ! 0)
      in (if poly_deg elp > t then - 1 else int (poly_deg elp), elp))"

subsection \<open>Decoder: the GF(2) linear solver and the affine degree-4 solver\<close>

definition elim_find :: "nat list \<Rightarrow> nat \<Rightarrow> nat \<Rightarrow> nat \<Rightarrow> nat option" where
  "elim_find rows msk p m =
     (case filter (\<lambda>r. rows ! r AND msk \<noteq> 0) [p..<m] of [] \<Rightarrow> None | r # _ \<Rightarrow> Some r)"

text \<open>
  One column of the Gaussian elimination. The state is \<^verbatim>\<open>(rows, param, mask)\<close>; \<open>k\<close> is the
  number of parameters found so far.
\<close>

definition elim_column ::
  "nat \<Rightarrow> nat \<Rightarrow> nat list \<times> nat list \<times> nat \<Rightarrow> nat list \<times> nat list \<times> nat" where
  "elim_column m c st =
     (case st of (rows, param, msk) \<Rightarrow>
      let k = length param;
          p = c - k
      in case elim_find rows msk p m of
           Some r \<Rightarrow>
             (let rows = (if r \<noteq> p then rows[r := rows ! p, p := rows ! r] else rows);
                  rem = r + 1;
                  tmp = rows ! p;
                  rows = fold (\<lambda>r rows. if rows ! r AND msk \<noteq> 0
                                         then rows[r := rows ! r XOR tmp] else rows)
                           [rem..<m] rows
              in (rows, param, drop_bit 1 msk))
         | None \<Rightarrow> (rows, param @ [c], drop_bit 1 msk))"

text \<open>
  \<^verbatim>\<open>for (r = m-1; r >= 0; r--)\<close> of the rewriting step; the fourth argument is \<open>r + 1\<close>,
  \<open>None\<close> is \<^verbatim>\<open>return 0\<close>.
\<close>

fun rewrite_rows :: "nat \<Rightarrow> nat \<Rightarrow> nat list \<Rightarrow> nat \<Rightarrow> nat \<Rightarrow> nat list \<Rightarrow> nat list option" where
  "rewrite_rows m k param 0 p rows = Some rows"
| "rewrite_rows m k param (Suc r) p rows =
     (if r > m - 1 - k \<and> rows ! r \<noteq> 0 then None
      else if p \<noteq> 0 \<and> r = param ! (p - 1)
           then rewrite_rows m k param r (p - 1) (rows[r := push_bit (m - r) 1])
           else rewrite_rows m k param r p (rows[r := rows ! (r - p)]))"

definition set_params :: "nat list \<Rightarrow> nat \<Rightarrow> nat list \<Rightarrow> nat list" where
  "set_params param p rows =
     fold (\<lambda>c rows. rows[param ! c := (rows ! (param ! c) AND 0xFFFFFFFE) OR (drop_bit c p AND 1)])
       [0..<length param] rows"

definition back_substitute :: "nat \<Rightarrow> nat list \<Rightarrow> nat" where
  "back_substitute m rows =
     drop_bit 1 (fold (\<lambda>r tmp. let msk = rows ! r AND (tmp OR 1)
                               in tmp OR push_bit (m - r) (parity msk))
                   (rev [0..<m]) 0)"

text \<open>\<^verbatim>\<open>for (p = 0; p < nsol; p++)\<close>; the last argument counts the solutions still to come.\<close>

fun solutions :: "nat \<Rightarrow> nat list \<Rightarrow> nat list \<Rightarrow> nat \<Rightarrow> nat \<Rightarrow> nat list" where
  "solutions m param rows p 0 = []"
| "solutions m param rows p (Suc cnt) =
     (let rows = set_params param p rows
      in back_substitute m rows # solutions m param rows (p + 1) cnt)"

text \<open>
  The result is the list of solutions written to \<^verbatim>\<open>sol\<close>; its length is the return value
  (\<open>nsol\<close>, or \<open>0\<close> with nothing written).
\<close>

definition solve_linear_system :: "bch_control \<Rightarrow> nat list \<Rightarrow> nat \<Rightarrow> nat list" where
  "solve_linear_system bch rows0 nsol =
     (let m = GF_M bch;
          (rows, param, msk) = fold (elim_column m) [0..<m] (rows0, [], push_bit m 1);
          k = length param
      in case (if k > 0 then rewrite_rows m k param m k rows else Some rows) of
           None \<Rightarrow> []
         | Some rows \<Rightarrow>
             if nsol \<noteq> push_bit k 1 then [] else solutions m param rows 0 nsol)"

text \<open>
  The transposition: \<^verbatim>\<open>for (k = 0; k < 16; k = (k+j+1) & ~j)\<close> visits the \<open>k < 16\<close> whose bit
  \<open>j\<close> is clear; the outer loop runs \<open>j = 8, 4, 2, 1\<close> and updates the mask with the new \<open>j\<close>.
\<close>

definition transpose_pass :: "nat \<Rightarrow> nat \<Rightarrow> nat list \<Rightarrow> nat list" where
  "transpose_pass j msk rows =
     fold (\<lambda>k rows.
             let t = (drop_bit j (rows ! k) XOR rows ! (k + j)) AND msk;
                 rows = rows[k := rows ! k XOR push_bit j t]
             in rows[k + j := rows ! (k + j) XOR t])
       (filter (\<lambda>k. k AND j = 0) [0..<16]) rows"

definition transpose16 :: "nat list \<Rightarrow> nat list" where
  "transpose16 rows =
     fst (fold (\<lambda>j (rows, msk).
                  (transpose_pass j msk rows,
                   (msk XOR push_bit (drop_bit 1 j) msk) mod 2 ^ 32))
            [8, 4, 2, 1] (rows, 0xff))"

definition find_affine4_roots :: "bch_control \<Rightarrow> nat \<Rightarrow> nat \<Rightarrow> nat \<Rightarrow> nat list" where
  "find_affine4_roots bch a b c =
     (let m = GF_M bch;
          j = a_log bch b;
          k = a_log bch a;
          rows = (replicate 16 0)[0 := c];
          rows = fold (\<lambda>i rows.
                    rows[i + 1 := a_pow_tab bch ! (4 * i)
                       XOR (if a \<noteq> 0 then a_pow_tab bch ! mod_s bch (k + 2 * i) else 0)
                       XOR (if b \<noteq> 0 then a_pow_tab bch ! mod_s bch (j + i) else 0)])
                   [0..<m] rows
      in solve_linear_system bch (transpose16 rows) 4)"

subsection \<open>Decoder: roots of polynomials of degree 1 to 4\<close>

text \<open>Each solver returns the roots it writes to \<^verbatim>\<open>roots\<close>, in order; their number is its result.\<close>

definition find_poly_deg1_roots :: "bch_control \<Rightarrow> gf_poly \<Rightarrow> nat list" where
  "find_poly_deg1_roots bch poly =
     (if poly_c poly ! 0 \<noteq> 0
      then [mod_s bch (GF_N bch - a_log_tab bch ! (poly_c poly ! 0)
                       + a_log_tab bch ! (poly_c poly ! 1))]
      else [])"

function xi_sum :: "bch_control \<Rightarrow> u32 \<Rightarrow> nat \<Rightarrow> nat" where
  "xi_sum bch v r =
     (if v \<noteq> 0 then
        (let i = deg (unat v)
         in xi_sum bch (v XOR push_bit i 1) (r XOR xi_tab bch ! i))
      else r)"
  by pat_completeness auto
termination
  by (relation "measure (\<lambda>(bch, v, r). unat v)")
     (auto simp: clear_top_bit_measure)
declare xi_sum.simps [simp del]

definition find_poly_deg2_roots :: "bch_control \<Rightarrow> gf_poly \<Rightarrow> nat list" where
  "find_poly_deg2_roots bch poly =
     (if poly_c poly ! 0 \<noteq> 0 \<and> poly_c poly ! 1 \<noteq> 0 then
        (let l0 = a_log_tab bch ! (poly_c poly ! 0);
             l1 = a_log_tab bch ! (poly_c poly ! 1);
             l2 = a_log_tab bch ! (poly_c poly ! 2);
             u = a_pow bch (int l0 + int l2 + 2 * (int (GF_N bch) - int l1));
             r = xi_sum bch (word_of_nat u) 0
         in if gf_sqr bch r XOR r = u
            then [modulo bch (nat ((2 * int (GF_N bch) - int l1 - int (a_log_tab bch ! r)
                                    + int l2) mod 2 ^ 32)),
                  modulo bch (nat ((2 * int (GF_N bch) - int l1
                                    - int (a_log_tab bch ! (r XOR 1)) + int l2) mod 2 ^ 32))]
            else [])
      else [])"

definition find_poly_deg3_roots :: "bch_control \<Rightarrow> gf_poly \<Rightarrow> nat list" where
  "find_poly_deg3_roots bch poly =
     (if poly_c poly ! 0 \<noteq> 0 then
        (let e3 = poly_c poly ! 3;
             c2 = gf_div bch (poly_c poly ! 0) e3;
             b2 = gf_div bch (poly_c poly ! 1) e3;
             a2 = gf_div bch (poly_c poly ! 2) e3;
             c = gf_mul bch a2 c2;
             b = gf_mul bch a2 b2 XOR c2;
             a = gf_sqr bch a2 XOR b2;
             tmp = find_affine4_roots bch a b c
         in if length tmp = 4
            then map (a_ilog bch) (filter (\<lambda>x. x \<noteq> a2) tmp)
            else [])
      else [])"

definition find_poly_deg4_roots :: "bch_control \<Rightarrow> gf_poly \<Rightarrow> nat list" where
  "find_poly_deg4_roots bch poly =
     (if poly_c poly ! 0 = 0 then []
      else
        (let e4 = poly_c poly ! 4;
             d = gf_div bch (poly_c poly ! 0) e4;
             c = gf_div bch (poly_c poly ! 1) e4;
             b = gf_div bch (poly_c poly ! 2) e4;
             a = gf_div bch (poly_c poly ! 3) e4;
             (e, d, b) =
               (if a \<noteq> 0 \<and> c \<noteq> 0 then
                  (let f = gf_div bch c a;
                       l = a_log bch f;
                       l = l + (if odd l then GF_N bch else 0);
                       e = a_pow bch (int (l div 2));
                       d = a_pow bch (2 * int l) XOR gf_mul bch b f XOR d;
                       b = gf_mul bch a e XOR b
                   in (e, d, b))
                else (0, d, b))
         in if a \<noteq> 0 \<and> d = 0 then []
            else
              (let (a2, b2, c2) =
                     (if a \<noteq> 0 then (gf_div bch b d, gf_div bch a d, gf_inv bch d)
                      else (b, c, d));
                   roots = find_affine4_roots bch a2 b2 c2
               in if length roots = 4
                  then map (\<lambda>x. let f = (if a \<noteq> 0 then gf_inv bch x else x)
                                in a_ilog bch (f XOR e)) roots
                  else [])))"

subsection \<open>Decoder: Berlekamp trace factoring\<close>

text \<open>
  The polynomials are values here. In the C text \<^verbatim>\<open>factor_polynomial\<close> stores the two
  factors inside the memory of \<open>f\<close>, \<open>g\<close> at its start and \<open>h\<close> at \<open>3 * deg g\<close> words from
  it; \<open>g\<close> takes \<open>deg g + 2\<close> words and \<open>deg g \<ge> 1\<close>, so the two never overlap and each call
  reads the coefficients \<open>0 .. deg\<close> of its argument only.
\<close>

definition gf_poly_logrep :: "bch_control \<Rightarrow> gf_poly \<Rightarrow> int list" where
  "gf_poly_logrep bch a =
     (let d = poly_deg a;
          l = GF_N bch - a_log bch (poly_c a ! poly_deg a)
      in map (\<lambda>i. if poly_c a ! i \<noteq> 0
                   then int (mod_s bch (a_log bch (poly_c a ! i) + l)) else - 1) [0..<d])"

text \<open>\<^verbatim>\<open>while (!c[a->deg] && a->deg) a->deg--;\<close>\<close>

function poly_trim :: "nat list \<Rightarrow> nat \<Rightarrow> nat" where
  "poly_trim c dg = (if c ! dg = 0 \<and> dg \<noteq> 0 then poly_trim c (dg - 1) else dg)"
  by pat_completeness auto
termination
  by (relation "measure (\<lambda>(c, dg). dg)") auto
declare poly_trim.simps [simp del]

text \<open>One round of \<^verbatim>\<open>for (j = a->deg; j >= d; j--)\<close> in \<^verbatim>\<open>gf_poly_mod\<close>.\<close>

definition mod_reduce :: "bch_control \<Rightarrow> int list \<Rightarrow> nat \<Rightarrow> nat \<Rightarrow> nat list \<Rightarrow> nat list" where
  "mod_reduce bch rep d j c =
     (if c ! j \<noteq> 0 then
        (let la = a_log bch (c ! j)
         in fold (\<lambda>i c. let m = rep ! i
                         in if m \<ge> 0
                            then c[j - d + i := c ! (j - d + i)
                                   XOR a_pow_tab bch ! mod_s bch (nat m + la)]
                            else c)
              [0..<d] c)
      else c)"

text \<open>
  \<^verbatim>\<open>gf_poly_mod\<close>: \<open>rep0 = None\<close> is the \<^verbatim>\<open>NULL\<close> argument. Every call of the source has
  \<open>deg b \<ge> 1\<close>.
\<close>

definition gf_poly_mod :: "bch_control \<Rightarrow> gf_poly \<Rightarrow> gf_poly \<Rightarrow> int list option \<Rightarrow> gf_poly" where
  "gf_poly_mod bch a b rep0 =
     (let d = poly_deg b in
      if poly_deg a < d then a
      else
        (let rep = (case rep0 of None \<Rightarrow> gf_poly_logrep bch b | Some rep \<Rightarrow> rep);
             c = fold (mod_reduce bch rep d) (rev [d..<poly_deg a + 1]) (poly_c a)
         in \<lparr>poly_deg = poly_trim c (d - 1), poly_c = c\<rparr>))"

text \<open>The result is \<open>a\<close> after the reduction and the quotient \<open>q\<close>.\<close>

definition gf_poly_div :: "bch_control \<Rightarrow> gf_poly \<Rightarrow> gf_poly \<Rightarrow> gf_poly \<times> gf_poly" where
  "gf_poly_div bch a b =
     (if poly_deg a \<ge> poly_deg b then
        (let qdeg = poly_deg a - poly_deg b;
             a = gf_poly_mod bch a b None
         in (a, \<lparr>poly_deg = qdeg, poly_c = take (1 + qdeg) (drop (poly_deg b) (poly_c a))\<rparr>))
      else (a, \<lparr>poly_deg = 0, poly_c = [0]\<rparr>))"

lemma poly_trim_le: "poly_trim c dg \<le> dg"
proof (induction c dg rule: poly_trim.induct)
  case (1 c dg)
  show ?case
  proof (cases "c ! dg = 0 \<and> dg \<noteq> 0")
    case True
    then have "poly_trim c dg = poly_trim c (dg - 1)" by (subst poly_trim.simps) simp
    moreover have "poly_trim c (dg - 1) \<le> dg - 1" using 1 True by simp
    ultimately show ?thesis by simp
  next
    case False
    then have "poly_trim c dg = dg" by (subst poly_trim.simps) auto
    then show ?thesis by simp
  qed
qed

lemma gf_poly_mod_deg:
  assumes "0 < poly_deg b"
  shows "poly_deg (gf_poly_mod bch a b rep) < poly_deg b"
proof -
  have "poly_trim c (poly_deg b - 1) < poly_deg b" for c
    using poly_trim_le [of c "poly_deg b - 1"] assms by linarith
  then show ?thesis by (simp add: gf_poly_mod_def Let_def)
qed

text \<open>\<^verbatim>\<open>while (b->deg > 0) { gf_poly_mod(bch, a, b, NULL); tmp = b; b = a; a = tmp; }\<close>\<close>

function gcd_loop :: "bch_control \<Rightarrow> gf_poly \<Rightarrow> gf_poly \<Rightarrow> gf_poly" where
  "gcd_loop bch a b =
     (if poly_deg b > 0 then gcd_loop bch b (gf_poly_mod bch a b None) else a)"
  by pat_completeness auto
termination
  by (relation "measure (\<lambda>(bch, a, b). poly_deg b)") (auto simp: gf_poly_mod_deg)
declare gcd_loop.simps [simp del]

definition gf_poly_gcd :: "bch_control \<Rightarrow> gf_poly \<Rightarrow> gf_poly \<Rightarrow> gf_poly" where
  "gf_poly_gcd bch a b =
     (if poly_deg a < poly_deg b then gcd_loop bch b a else gcd_loop bch a b)"

text \<open>
  \<^verbatim>\<open>compute_trace_bk_mod\<close>. One round of \<^verbatim>\<open>for (j = z->deg; j >= 0; j--)\<close> on the
  coefficients of \<open>out\<close> and \<open>z\<close>:
\<close>

definition trace_square ::
  "bch_control \<Rightarrow> nat \<Rightarrow> nat list \<times> nat list \<Rightarrow> nat list \<times> nat list" where
  "trace_square bch j st =
     (case st of (outc, zc) \<Rightarrow>
      let outc = outc[j := outc ! j XOR zc ! j];
          zc = zc[2 * j := gf_sqr bch (zc ! j)];
          zc = zc[2 * j + 1 := 0]
      in (outc, zc))"

text \<open>One round of \<^verbatim>\<open>for (i = 0; i < m; i++)\<close>; \<open>cache\<close> is the log representation of \<open>f\<close>.\<close>

definition trace_step ::
  "bch_control \<Rightarrow> gf_poly \<Rightarrow> int list \<Rightarrow> nat \<Rightarrow> gf_poly \<times> gf_poly \<Rightarrow> gf_poly \<times> gf_poly" where
  "trace_step bch f cache i st =
     (case st of (out, z) \<Rightarrow>
      let (outc, zc) = fold (trace_square bch) (rev [0..<poly_deg z + 1]) (poly_c out, poly_c z);
          out = \<lparr>poly_deg = (if poly_deg z > poly_deg out then poly_deg z else poly_deg out),
                 poly_c = outc\<rparr>;
          z = z\<lparr>poly_c := zc\<rparr>
      in if i < GF_M bch - 1
         then (out, gf_poly_mod bch (z\<lparr>poly_deg := poly_deg z * 2\<rparr>) f (Some cache))
         else (out, z))"

definition compute_trace_bk_mod :: "bch_control \<Rightarrow> nat \<Rightarrow> gf_poly \<Rightarrow> gf_poly" where
  "compute_trace_bk_mod bch k f =
     (let m = GF_M bch;
          z = \<lparr>poly_deg = 1,
               poly_c = (replicate (2 * GF_T bch + 1) 0)[1 := a_pow_tab bch ! k]\<rparr>;
          out = \<lparr>poly_deg = 0, poly_c = replicate (2 * GF_T bch + 1) 0\<rparr>;
          cache = gf_poly_logrep bch f;
          (out, z) = fold (trace_step bch f cache) [0..<m] (out, z)
      in out\<lparr>poly_deg := poly_trim (poly_c out) (poly_deg out)\<rparr>)"

text \<open>The result is \<open>(g, h)\<close>; \<open>h = None\<close> is \<^verbatim>\<open>*h = NULL\<close> (\<open>f\<close> was not split).\<close>

definition factor_polynomial :: "bch_control \<Rightarrow> nat \<Rightarrow> gf_poly \<Rightarrow> gf_poly \<times> gf_poly option" where
  "factor_polynomial bch k f =
     (let tk = compute_trace_bk_mod bch k f in
      if poly_deg tk > 0 then
        (let f2 = f;
             gcd = gf_poly_gcd bch f2 tk
         in if poly_deg gcd < poly_deg f
            then (case gf_poly_div bch f gcd of (f', q) \<Rightarrow> (gcd, Some q))
            else (f, None))
      else (f, None))"

text \<open>
  \<^verbatim>\<open>find_poly_roots\<close>: the roots written to \<^verbatim>\<open>roots\<close>, in order (those of \<open>f1\<close>, then those
  of \<open>f2\<close>); the C result \<open>cnt\<close> is the length of the list.
\<close>

function find_poly_roots :: "bch_control \<Rightarrow> nat \<Rightarrow> gf_poly \<Rightarrow> nat list" where
  "find_poly_roots bch k poly =
     (if poly_deg poly = 1 then find_poly_deg1_roots bch poly
      else if poly_deg poly = 2 then find_poly_deg2_roots bch poly
      else if poly_deg poly = 3 then find_poly_deg3_roots bch poly
      else if poly_deg poly = 4 then find_poly_deg4_roots bch poly
      else if poly_deg poly \<noteq> 0 \<and> k \<le> GF_M bch then
        (let fs = factor_polynomial bch k poly;
             roots1 = find_poly_roots bch (k + 1) (fst fs)
         in case snd fs of
              None \<Rightarrow> roots1
            | Some f2 \<Rightarrow> roots1 @ find_poly_roots bch (k + 1) f2)
      else [])"
  by pat_completeness auto
termination
  by (relation "measure (\<lambda>(bch, k, poly). GF_M bch + 1 - k)") auto
declare find_poly_roots.simps [simp del]

subsection \<open>Decoder: \<^verbatim>\<open>decode_bch\<close>\<close>

text \<open>
  The post-processing loop. The result is the new contents of the entries and whether
  the loop ran to its end (\<open>False\<close>: it met a location \<open>\<ge> nbits\<close> and stopped there).
\<close>

fun post_process :: "nat \<Rightarrow> nat list \<Rightarrow> nat list \<times> bool" where
  "post_process nbits [] = ([], True)"
| "post_process nbits (e # es) =
     (if e \<ge> nbits then (e # es, False)
      else (let e = nbits - 1 - e;
                e = (e AND 0xFFFFFFF8) OR (7 - (e AND 7))
            in case post_process nbits es of (es', ok) \<Rightarrow> (e # es', ok)))"

definition xor_words :: "bch_control \<Rightarrow> u32 list \<Rightarrow> u32 list \<Rightarrow> u32 list" where
  "xor_words bch a b =
     map (\<lambda>i. a ! i XOR b ! i) [0..<BCH_ECC_WORDS bch] @ drop (BCH_ECC_WORDS bch) a"

definition or_words :: "bch_control \<Rightarrow> u32 list \<Rightarrow> u32" where
  "or_words bch a = fold (\<lambda>i sum. sum OR a ! i) [0..<BCH_ECC_WORDS bch] 0"

text \<open>
  The part of \<^verbatim>\<open>decode_bch\<close> after the syndromes are known (from
  \<^verbatim>\<open>err = compute_error_locator_polynomial(bch, syn)\<close> to the \<^verbatim>\<open>return\<close>). The result is the
  return value and the new contents of \<^verbatim>\<open>errloc\<close>: the roots are written to its first
  entries, the other entries keep their contents.
\<close>

definition locate_errors ::
  "bch_control \<Rightarrow> nat \<Rightarrow> nat list \<Rightarrow> nat list \<Rightarrow> int \<times> nat list" where
  "locate_errors bch len sy errloc =
     (case compute_error_locator_polynomial bch sy of (err, elp) \<Rightarrow>
      if err > 0 then
        (let roots = find_poly_roots bch 1 elp
         in if err \<noteq> int (length roots) then (- 13, roots @ drop (length roots) errloc)
            else
              (let nbits = len * 8 + ecc_bits bch
               in case post_process nbits roots of
                    (es, ok) \<Rightarrow> (if ok then err else - 13, es @ drop (length es) errloc)))
      else (if err \<ge> 0 then err else - 13, errloc))"

text \<open>
  The block \<^verbatim>\<open>if (!syn) { ... }\<close> of \<^verbatim>\<open>decode_bch\<close>, which runs when the caller gives no
  syndromes: \<open>Inl r\<close> is an early \<^verbatim>\<open>return r\<close>, \<open>Inr sy\<close> the syndromes computed into
  \<^verbatim>\<open>bch->syn\<close>. \<open>None\<close> is a \<^verbatim>\<open>NULL\<close> argument, \<open>addr\<close> the address of \<^verbatim>\<open>data\<close>.

  \<open>buf\<close> and \<open>buf2\<close> are the contents of \<^verbatim>\<open>bch->ecc_buf\<close> and \<^verbatim>\<open>bch->ecc_buf2\<close> while the block
  runs; they are written back to the record at its end. The functions called read the
  parameters and tables of the codec and get the buffers as arguments, as in the source
  (\<^verbatim>\<open>compute_syndromes(bch, bch->ecc_buf, bch->syn)\<close>).
\<close>

definition decode_syndromes ::
  "bch_control \<Rightarrow> nat \<Rightarrow> u8 list option \<Rightarrow> nat \<Rightarrow> u8 list option \<Rightarrow> u8 list option \<Rightarrow>
   bch_control \<times> (int + nat list)" where
  "decode_syndromes bch addr data len recv_ecc calc_ecc =
     (if calc_ecc = None \<and> (data = None \<or> recv_ecc = None) then (bch, Inl (- 11))
      else
        (let buf = (case calc_ecc of
                      None \<Rightarrow> ecc_buf (fst (encode_bch bch addr (the data) len None))
                    | Some ce \<Rightarrow> load_ecc8 bch ce);
             buf2 = (case recv_ecc of Some re \<Rightarrow> load_ecc8 bch re | None \<Rightarrow> ecc_buf2 bch);
             buf = (case recv_ecc of Some re \<Rightarrow> xor_words bch buf buf2 | None \<Rightarrow> buf)
         in if recv_ecc \<noteq> None \<and> or_words bch buf = 0
            then (bch\<lparr>ecc_buf := buf, ecc_buf2 := buf2\<rparr>, Inl 0)
            else
              (case compute_syndromes bch buf of
                 (ecc, sy) \<Rightarrow> (bch\<lparr>ecc_buf := ecc, ecc_buf2 := buf2, syn := sy\<rparr>, Inr sy))))"

text \<open>
  \<^verbatim>\<open>decode_bch\<close>: \<open>-11\<close> is \<^verbatim>\<open>-EINVAL\<close> and \<open>-13\<close> is \<^verbatim>\<open>-EBADMSG\<close> (the two constants are defined in
  \<^verbatim>\<open>bch.c\<close>). The result is the codec (with its scratch buffers), the return value and
  \<^verbatim>\<open>errloc\<close>.
\<close>

definition decode_bch ::
  "bch_control \<Rightarrow> nat \<Rightarrow> u8 list option \<Rightarrow> nat \<Rightarrow> u8 list option \<Rightarrow> u8 list option \<Rightarrow>
   nat list option \<Rightarrow> nat list \<Rightarrow> bch_control \<times> int \<times> nat list" where
  "decode_bch bch addr data len recv_ecc calc_ecc syn_in errloc =
     (if len > (GF_N bch - ecc_bits bch + 7) div 8 then (bch, - 11, errloc)
      else case syn_in of
        Some sy \<Rightarrow> (case locate_errors bch len sy errloc of (err, errloc) \<Rightarrow> (bch, err, errloc))
      | None \<Rightarrow>
          (case decode_syndromes bch addr data len recv_ecc calc_ecc of
             (bch', Inl r) \<Rightarrow> (bch', r, errloc)
           | (bch', Inr sy) \<Rightarrow>
               (case locate_errors bch len sy errloc of (err, errloc) \<Rightarrow> (bch', err, errloc))))"

subsection \<open>Correction helpers\<close>

text \<open>A write outside the caller's array is an error value of the model.\<close>

datatype mem_error = OutOfBounds int

text \<open>
  \<^verbatim>\<open>correct_bch\<close>: \<^verbatim>\<open>int bi = errloc[i]; if ((bi>>3) < len) data[bi>>3] ^= (1<<(bi&7));\<close>
  The comparison is between an \<^verbatim>\<open>int\<close> and the \<^verbatim>\<open>unsigned int len\<close>, hence unsigned.
\<close>

definition correct_bch ::
  "bch_control \<Rightarrow> u8 list \<Rightarrow> nat \<Rightarrow> nat list \<Rightarrow> int \<Rightarrow> mem_error + u8 list" where
  "correct_bch bch data0 len errloc nerr =
     fold (\<lambda>e res.
             case res of
               Inl err \<Rightarrow> Inl err
             | Inr data \<Rightarrow>
                 (let bi = to_int32 e
                  in if nat ((bi div 8) mod 2 ^ 32) < len
                     then (if 0 \<le> bi div 8 \<and> nat (bi div 8) < length data
                           then Inr (data[nat (bi div 8) :=
                                       data ! nat (bi div 8) XOR push_bit (nat (bi mod 8)) 1])
                           else Inl (OutOfBounds (bi div 8)))
                     else Inr data))
       (take (nat nerr) errloc) (Inr data0)"

text \<open>
  \<^verbatim>\<open>correctbits_bch\<close>: \<^verbatim>\<open>const int m = bch->n - bch->ecc_bits; int bi = errloc[i];
  if (bi < m) databits[bi] ^= 1;\<close> The comparison is between two \<^verbatim>\<open>int\<close>s, hence signed.
\<close>

definition correctbits_bch ::
  "bch_control \<Rightarrow> u8 list \<Rightarrow> nat list \<Rightarrow> int \<Rightarrow> mem_error + u8 list" where
  "correctbits_bch bch databits0 errloc nerr =
     (let m = to_int32 (GF_N bch - ecc_bits bch)
      in fold (\<lambda>e res.
                 case res of
                   Inl err \<Rightarrow> Inl err
                 | Inr databits \<Rightarrow>
                     (let bi = to_int32 e
                      in if bi < m
                         then (if 0 \<le> bi \<and> nat bi < length databits
                               then Inr (databits[nat bi := databits ! nat bi XOR 1])
                               else Inl (OutOfBounds bi))
                         else Inr databits))
           (take (nat nerr) errloc) (Inr databits0))"


section \<open>Which fields the field arithmetic reads\<close>

definition same_field :: "bch_control \<Rightarrow> bch_control \<Rightarrow> bool" where
  "same_field b b' \<longleftrightarrow>
     GF_M b = GF_M b' \<and> GF_N b = GF_N b' \<and> a_pow_tab b = a_pow_tab b' \<and>
     a_log_tab b = a_log_tab b'"

lemma same_fieldD:
  assumes "same_field b b'"
  shows "GF_M b = GF_M b'" "GF_N b = GF_N b'" "a_pow_tab b = a_pow_tab b'"
    "a_log_tab b = a_log_tab b'"
  using assms by (simp_all add: same_field_def)

lemma same_field_mod_s:
  assumes "same_field b b'"
  shows "mod_s b = mod_s b'"
  unfolding mod_s_def same_fieldD [OF assms] by (rule refl)

lemma same_field_modulo_arg: "same_field b b' \<Longrightarrow> modulo b v = modulo b' v"
proof (induction b v rule: modulo.induct)
  case (1 bch v)
  note E = same_fieldD [OF "1.prems"]
  show ?case
  proof (cases "GF_N bch \<le> v \<and> 0 < GF_N bch \<and> 0 < GF_M bch")
    case True
    then have "modulo bch v
        = modulo bch (((v - GF_N bch) AND GF_N bch) + drop_bit (GF_M bch) (v - GF_N bch))"
      by (subst modulo.simps) simp
    also have "\<dots> = modulo b' (((v - GF_N bch) AND GF_N bch) + drop_bit (GF_M bch) (v - GF_N bch))"
      using 1 True by simp
    also have "\<dots> = modulo b' v"
      using True E by (subst (2) modulo.simps) simp
    finally show ?thesis .
  next
    case False
    have "modulo bch v = v" using False by (subst modulo.simps) auto
    moreover have "modulo b' v = v" using False E by (subst modulo.simps) auto
    ultimately show ?thesis by simp
  qed
qed

lemma same_field_modulo: "same_field b b' \<Longrightarrow> modulo b = modulo b'"
  by (rule ext) (rule same_field_modulo_arg)

lemma same_field_gf_mul:
  assumes "same_field b b'"
  shows "gf_mul b = gf_mul b'"
  unfolding gf_mul_def same_fieldD [OF assms] same_field_mod_s [OF assms] by (rule refl)

lemma same_field_gf_sqr:
  assumes "same_field b b'"
  shows "gf_sqr b = gf_sqr b'"
  unfolding gf_sqr_def same_fieldD [OF assms] same_field_mod_s [OF assms] by (rule refl)

lemma same_field_a_pow:
  assumes "same_field b b'"
  shows "a_pow b = a_pow b'"
  unfolding a_pow_def same_fieldD [OF assms] same_field_modulo [OF assms] by (rule refl)

lemma same_field_a_log:
  assumes "same_field b b'"
  shows "a_log b = a_log b'"
  unfolding a_log_def same_fieldD [OF assms] by (rule refl)

lemma same_field_find_ak:
  assumes "same_field b b'"
  shows "find_ak b = find_ak b'"
  unfolding find_ak_def same_fieldD [OF assms] same_field_a_pow [OF assms] by (rule refl)

lemma same_field_deg2_try:
  assumes "same_field b b'"
  shows "deg2_try b = deg2_try b'"
  unfolding deg2_try_def same_fieldD [OF assms] same_field_a_log [OF assms] by (rule refl)

lemma same_field_deg2_base_loop:
  "same_field b b' \<Longrightarrow> deg2_base_loop b ak x st = deg2_base_loop b' ak x st"
proof (induction b ak x st rule: deg2_base_loop.induct)
  case (1 bch ak x st)
  obtain xt xi remaining where st: "st = (xt, xi, remaining)" by (cases st) auto
  have s1: "(xt, (xi, remaining)) = st" using st by simp
  have s2: "(xi, remaining) = (xi, remaining)" by simp
  note E = same_fieldD [OF "1.prems"]
  note T = same_field_deg2_try [OF "1.prems"]
  note S = same_field_gf_sqr [OF "1.prems"]
  show ?case
  proof (cases "x \<le> GF_N bch \<and> remaining \<noteq> 0")
    case False
    have "deg2_base_loop bch ak x st = st"
      using False st by (subst deg2_base_loop.simps) auto
    moreover have "deg2_base_loop b' ak x st = st"
      using False st E by (subst deg2_base_loop.simps) auto
    ultimately show ?thesis by simp
  next
    case True
    show ?thesis
    proof (cases "deg2_try bch ak xi (gf_sqr bch x XOR x)")
      case None
      have "deg2_base_loop bch ak x st = deg2_base_loop bch ak (x + 1) (xt, xi, remaining)"
        using True st None by (subst deg2_base_loop.simps) simp
      also have "\<dots> = deg2_base_loop b' ak (x + 1) (xt, xi, remaining)"
        using "1.IH"(1) [OF s1 s2 True refl None "1.prems"] by simp
      also have "\<dots> = deg2_base_loop b' ak x st"
        using True st None E T S by (subst (2) deg2_base_loop.simps) simp
      finally show ?thesis .
    next
      case (Some r)
      have "deg2_base_loop bch ak x st
          = deg2_base_loop bch ak (x + 1) (xt[r := x], xi[r := 1], remaining - 1)"
        using True st Some by (subst deg2_base_loop.simps) simp
      also have "\<dots> = deg2_base_loop b' ak (x + 1) (xt[r := x], xi[r := 1], remaining - 1)"
        using "1.IH"(2) [OF s1 s2 True refl Some "1.prems"] by simp
      also have "\<dots> = deg2_base_loop b' ak x st"
        using True st Some E T S by (subst (2) deg2_base_loop.simps) simp
      finally show ?thesis .
    qed
  qed
qed

lemma same_field_mark_coset:
  "same_field b b' \<Longrightarrow> mark_coset b j r roots = mark_coset b' j r roots"
  by (induction j arbitrary: r roots) (simp_all add: same_field_mod_s)

lemma same_field_enumerate_roots:
  assumes "same_field b b'" "GF_T b = GF_T b'"
  shows "enumerate_roots b = enumerate_roots b'"
proof -
  have M: "mark_coset b = mark_coset b'"
    by (intro ext) (rule same_field_mark_coset [OF assms(1)])
  show ?thesis
    unfolding enumerate_roots_def same_fieldD [OF assms(1)] assms(2) M by (rule refl)
qed

lemma same_field_mul_by_root:
  "same_field b b' \<Longrightarrow> mul_by_root b r j c = mul_by_root b' r j c"
  by (induction j arbitrary: c) (simp_all add: same_field_gf_mul)

lemma same_field_gen_step:
  assumes "same_field b b'"
  shows "gen_step b = gen_step b'"
proof -
  have M: "mul_by_root b = mul_by_root b'"
    by (intro ext) (rule same_field_mul_by_root [OF assms])
  show ?thesis
    unfolding gen_step_def same_fieldD [OF assms] same_field_gf_mul [OF assms] M
    by (rule refl)
qed

lemma same_field_generator_poly:
  assumes "same_field b b'" "GF_T b = GF_T b'"
  shows "generator_poly b = generator_poly b'"
  unfolding generator_poly_def same_fieldD [OF assms(1)] assms(2)
    same_field_gen_step [OF assms(1)] same_field_enumerate_roots [OF assms]
  by (rule refl)


section \<open>What a successful construction fixes\<close>

lemma build_gf_tables_SomeD:
  assumes "build_gf_tables bch poly = Some b'"
  obtains pw lg where
    "2 ^ deg poly = (2::nat) ^ GF_M bch"
    "gf_tables_loop (GF_N bch) poly (2 ^ deg poly) 0 1 (a_pow_tab bch, a_log_tab bch) = Some (pw, lg)"
    "b' = bch\<lparr>a_pow_tab := pw[GF_N bch := 1], a_log_tab := lg[0 := 0]\<rparr>"
  using assms
  by (auto simp: build_gf_tables_def Let_def split: if_splits option.splits prod.splits)

lemma build_deg2_base_SomeD:
  assumes "build_deg2_base b = Some b'"
  obtains xt xi where
    "deg2_base_loop b (find_ak b) 0 (xi_tab b, replicate (GF_M b) 0, GF_M b) = (xt, xi, 0)"
    "b' = b\<lparr>xi_tab := xt\<rparr>"
  using assms
  by (auto simp: build_deg2_base_def split: if_splits prod.splits)

lemma init_bch_SomeD:
  assumes "init_bch m t p = Some bch"
  obtains b1 xt xi where
    "5 \<le> m" "m \<le> 15" "1 \<le> t" "m * t < 2 ^ nat m - 1"
    "build_gf_tables (alloc_bch m t) (if p = 0 then prim_poly_tab ! nat (m - 5) else p) = Some b1"
    "bch = (build_mod8_tables (b1\<lparr>ecc_bits := poly_deg (generator_poly b1)\<rparr>)
              (genpoly_words (poly_c (generator_poly b1)) (poly_deg (generator_poly b1) + 1)))
             \<lparr>xi_tab := xt\<rparr>"
proof -
  from assms have v: "5 \<le> m" "m \<le> 15" "1 \<le> t" "m * t < 2 ^ nat m - 1"
    by (auto simp: init_bch_def split: if_splits)
  define p' where "p' = (if p = 0 then prim_poly_tab ! nat (m - 5) else p)"
  from assms v obtain b1 where
    b1: "build_gf_tables (alloc_bch m t) p' = Some b1"
    and d: "build_deg2_base (build_mod8_tables (b1\<lparr>ecc_bits := poly_deg (generator_poly b1)\<rparr>)
              (genpoly_words (poly_c (generator_poly b1)) (poly_deg (generator_poly b1) + 1)))
            = Some bch"
    by (auto simp: init_bch_def Let_def p'_def compute_generator_polynomial_def
        split: if_splits option.splits)
  from build_deg2_base_SomeD [OF d] obtain xt xi where
    "bch = (build_mod8_tables (b1\<lparr>ecc_bits := poly_deg (generator_poly b1)\<rparr>)
              (genpoly_words (poly_c (generator_poly b1)) (poly_deg (generator_poly b1) + 1)))
             \<lparr>xi_tab := xt\<rparr>"
    by blast
  with v b1 that show thesis unfolding p'_def by blast
qed

lemma init_bch_fields:
  assumes "init_bch m t p = Some bch"
  shows "GF_M bch = nat m" "GF_N bch = 2 ^ nat m - 1" "GF_T bch = nat t"
    "ecc_bytes bch = DIV_ROUND_UP (nat (m * t)) 8"
proof -
  from init_bch_SomeD [OF assms] obtain b1 xt where
    b1: "build_gf_tables (alloc_bch m t) (if p = 0 then prim_poly_tab ! nat (m - 5) else p) = Some b1"
    and bch: "bch = (build_mod8_tables (b1\<lparr>ecc_bits := poly_deg (generator_poly b1)\<rparr>)
              (genpoly_words (poly_c (generator_poly b1)) (poly_deg (generator_poly b1) + 1)))
             \<lparr>xi_tab := xt\<rparr>"
    by blast
  from build_gf_tables_SomeD [OF b1] obtain pw lg where
    "b1 = (alloc_bch m t)\<lparr>a_pow_tab := pw[GF_N (alloc_bch m t) := 1], a_log_tab := lg[0 := 0]\<rparr>"
    by blast
  then show "GF_M bch = nat m" "GF_N bch = 2 ^ nat m - 1" "GF_T bch = nat t"
    "ecc_bytes bch = DIV_ROUND_UP (nat (m * t)) 8"
    using bch by (simp_all add: build_mod8_tables_def alloc_bch_def Let_def)
qed



section \<open>Concrete codecs\<close>

text \<open>A small record with the fields that the table-driven field arithmetic reads.\<close>

definition lite :: "nat \<Rightarrow> nat \<Rightarrow> nat list \<Rightarrow> nat list \<Rightarrow> bch_control" where
  "lite m t pw lg =
     \<lparr>GF_M = m, GF_N = 2 ^ m - 1, GF_T = t, ecc_bits = 0, ecc_bytes = 0,
      a_pow_tab = pw, a_log_tab = lg, mod8_tab = [], ecc_buf = [], ecc_buf2 = [],
      xi_tab = [], syn = []\<rparr>"

definition pw5 :: "nat list" where
  "pw5 = [1, 2, 4, 8, 16, 5, 10, 20, 13, 26, 17, 7, 14, 28, 29, 31, 27, 19, 3, 6,
          12, 24, 21, 15, 30, 25, 23, 11, 22, 9, 18, 1]"

definition lg5 :: "nat list" where
  "lg5 = [0, 0, 1, 18, 2, 5, 19, 11, 3, 29, 6, 27, 20, 8, 12, 23, 4, 10, 30, 17,
          7, 22, 28, 26, 21, 25, 9, 16, 13, 14, 24, 15]"

lemma deg_0x25: "deg 0x25 = 5"
  by code_simp

lemma gf_tables_loop_0x25:
  "gf_tables_loop 31 0x25 32 0 1 (replicate 32 0, replicate 32 0) =
     Some (pw5[31 := 0], lg5)"
  by code_simp

lemma init_bch_eqI:
  assumes v: "5 \<le> m" "m \<le> 15" "1 \<le> t" "m * t < 2 ^ nat m - 1"
    and p': "p' = (if p = 0 then prim_poly_tab ! nat (m - 5) else p)"
    and d: "deg p' = nat m"
    and l: "gf_tables_loop (2 ^ nat m - 1) p' (2 ^ nat m) 0 1
              (replicate (2 ^ nat m) 0, replicate (2 ^ nat m) 0) = Some (pw, lg)"
    and b: "same_field b' (lite (nat m) (nat t) (pw[2 ^ nat m - 1 := 1]) (lg[0 := 0]))"
       "GF_T b' = nat t"
    and g: "generator_poly b' = g"
    and x: "deg2_base_loop b' (find_ak b') 0 (replicate (nat m) 0, replicate (nat m) 0, nat m)
              = (xt, xi, 0)"
  shows "init_bch m t p =
     Some ((build_mod8_tables
              ((alloc_bch m t)\<lparr>a_pow_tab := pw[2 ^ nat m - 1 := 1], a_log_tab := lg[0 := 0],
                               ecc_bits := poly_deg g\<rparr>)
              (genpoly_words (poly_c g) (poly_deg g + 1)))\<lparr>xi_tab := xt\<rparr>)"
proof -
  define b1 where
    "b1 = (alloc_bch m t)\<lparr>a_pow_tab := pw[2 ^ nat m - 1 := 1], a_log_tab := lg[0 := 0]\<rparr>"
  have one: "1 + (2 ^ nat m - 1) = (2::nat) ^ nat m"
    by simp
  have af: "GF_M (alloc_bch m t) = nat m" "GF_N (alloc_bch m t) = 2 ^ nat m - 1"
    "a_pow_tab (alloc_bch m t) = replicate (2 ^ nat m) 0"
    "a_log_tab (alloc_bch m t) = replicate (2 ^ nat m) 0"
    unfolding alloc_bch_def Let_def one by simp_all
  have bg: "build_gf_tables (alloc_bch m t) p' = Some b1"
    unfolding build_gf_tables_def Let_def af d l b1_def by simp
  have sf: "same_field b' b1"
    using b(1) by (simp add: same_field_def lite_def b1_def alloc_bch_def Let_def)
  have sf2: "same_field b' (build_mod8_tables (b1\<lparr>ecc_bits := poly_deg g\<rparr>)
               (genpoly_words (poly_c g) (poly_deg g + 1)))"
    using sf by (simp add: same_field_def build_mod8_tables_def)
  have t: "GF_T b' = GF_T b1"
    using b(2) by (simp add: b1_def alloc_bch_def Let_def)
  have gp: "generator_poly b1 = g"
    using same_field_generator_poly [OF sf t] g by simp
  have fa: "find_ak (build_mod8_tables (b1\<lparr>ecc_bits := poly_deg g\<rparr>)
               (genpoly_words (poly_c g) (poly_deg g + 1))) = find_ak b'"
    using same_field_find_ak [OF sf2] by simp
  have dl: "deg2_base_loop (build_mod8_tables (b1\<lparr>ecc_bits := poly_deg g\<rparr>)
               (genpoly_words (poly_c g) (poly_deg g + 1))) = deg2_base_loop b'"
    using same_field_deg2_base_loop [OF sf2] by (simp add: fun_eq_iff)
  have "build_deg2_base (build_mod8_tables (b1\<lparr>ecc_bits := poly_deg g\<rparr>)
               (genpoly_words (poly_c g) (poly_deg g + 1))) =
        Some ((build_mod8_tables (b1\<lparr>ecc_bits := poly_deg g\<rparr>)
               (genpoly_words (poly_c g) (poly_deg g + 1)))\<lparr>xi_tab := xt\<rparr>)"
    unfolding build_deg2_base_def fa dl
    using x by (simp add: build_mod8_tables_def b1_def alloc_bch_def Let_def)
  then show ?thesis
    using v bg gp
    by (simp add: init_bch_def p' [symmetric] compute_generator_polynomial_def Let_def b1_def)
qed

lemma prim_5: "prim_poly_tab ! nat (5 - 5) = 0x25"
  by (simp add: prim_poly_tab_def)

lemma generator_poly_51:
  "generator_poly (lite 5 1 pw5 lg5) = \<lparr>poly_deg = 5, poly_c = [1, 0, 1, 0, 0, 1]\<rparr>"
  by code_simp

lemma deg2_base_5:
  "deg2_base_loop (lite 5 1 pw5 lg5) (find_ak (lite 5 1 pw5 lg5)) 0
     (replicate 5 0, replicate 5 0, 5) = ([0, 8, 10, 20, 14], [1, 1, 1, 1, 1], 0)"
  by code_simp

lemma genpoly_words_51: "genpoly_words [1, 0, 1, 0, 0, 1] 6 = [0x94000000]"
  by code_simp

lemma genpoly_words_51': "genpoly_words [Suc 0, 0, Suc 0, 0, 0, Suc 0] 6 = [0x94000000]"
  using genpoly_words_51 by simp

lemma replicate_2: "replicate 2 x = [x, x]"
  by (simp add: numeral_2_eq_2)

definition tab51 :: "u32 list" where
  "tab51 = concat (map (\<lambda>b. concat (map (\<lambda>i.
              mod8_row_loop [0x94000000] 1 1 (push_bit (8 * b) (word_of_nat i)) [0])
            [0..<256])) [0..<4])"

declare tab51_def [code del]

definition bch51 :: bch_control where
  "bch51 = \<lparr>GF_M = 5, GF_N = 31, GF_T = 1, ecc_bits = 5, ecc_bytes = 1,
            a_pow_tab = pw5, a_log_tab = lg5, mod8_tab = tab51,
            ecc_buf = [0], ecc_buf2 = [0], xi_tab = [0, 8, 10, 20, 14], syn = [0, 0]\<rparr>"

lemma pw5_upd: "pw5[31 := 0, 31 := 1] = pw5" "pw5[31 := Suc 0] = pw5"
  by code_simp+

lemma lg5_upd: "lg5[0 := 0] = lg5"
  by code_simp

lemma same_field_refl: "same_field b b"
  by (simp add: same_field_def)

lemma init_bch_5_1_0: "init_bch 5 1 0 = Some bch51"
proof -
  have r: "DIV_ROUND_UP 5 32 = 1" "DIV_ROUND_UP 6 32 = 1" "DIV_ROUND_UP 5 8 = 1"
    by (simp_all add: DIV_ROUND_UP_def)
  have "init_bch 5 1 0 =
     Some ((build_mod8_tables
              ((alloc_bch 5 1)\<lparr>a_pow_tab := pw5[31 := 0, 2 ^ nat 5 - 1 := 1], a_log_tab := lg5[0 := 0],
                               ecc_bits := poly_deg \<lparr>poly_deg = 5, poly_c = [1, 0, 1, 0, 0, 1]\<rparr>\<rparr>)
              (genpoly_words (poly_c \<lparr>poly_deg = 5, poly_c = [1, 0, 1, 0, 0, 1]\<rparr>)
                 (poly_deg \<lparr>poly_deg = 5, poly_c = [1, 0, 1, 0, 0, 1]\<rparr> + 1)))
            \<lparr>xi_tab := [0, 8, 10, 20, 14]\<rparr>)"
  proof (rule init_bch_eqI [where p' = "0x25" and b' = "lite 5 1 pw5 lg5"
        and xi = "[1, 1, 1, 1, 1]"])
    show "same_field (lite 5 1 pw5 lg5) (lite (nat 5) (nat 1) (pw5[31 := 0, 2 ^ nat 5 - 1 := 1]) (lg5[0 := 0]))"
      by (simp add: pw5_upd lg5_upd same_field_refl)
    show "gf_tables_loop (2 ^ nat 5 - 1) 0x25 (2 ^ nat 5) 0 1
            (replicate (2 ^ nat 5) 0, replicate (2 ^ nat 5) 0) = Some (pw5[31 := 0], lg5)"
      using gf_tables_loop_0x25 by simp
    show "deg2_base_loop (lite 5 1 pw5 lg5) (find_ak (lite 5 1 pw5 lg5)) 0
            (replicate (nat 5) 0, replicate (nat 5) 0, nat 5) = ([0, 8, 10, 20, 14], [1, 1, 1, 1, 1], 0)"
      using deg2_base_5 by simp
    show "0x25 = (if (0::nat) = 0 then prim_poly_tab ! nat (5 - 5) else 0)"
      by (simp add: prim_poly_tab_def)
    show "deg 0x25 = nat 5"
      using deg_0x25 by simp
    show "generator_poly (lite 5 1 pw5 lg5) = \<lparr>poly_deg = 5, poly_c = [1, 0, 1, 0, 0, 1]\<rparr>"
      by (rule generator_poly_51)
    show "GF_T (lite 5 1 pw5 lg5) = nat 1"
      by (simp add: lite_def)
  qed simp_all
  also have "\<dots> = Some bch51"
    by (simp add: build_mod8_tables_def alloc_bch_def bch51_def tab51_def mod8_row_def
        BCH_ECC_WORDS_def genpoly_words_51' replicate_2 pw5_upd lg5_upd r Let_def)
  finally show ?thesis .
qed


section \<open>Bytes and words of the parity buffer\<close>

lemma bit_be32:
  "bit (be32 a b c d) n \<longleftrightarrow>
     (if n < 8 then bit d n else if n < 16 then bit c (n - 8)
      else if n < 24 then bit b (n - 16) else bit a (n - 24))"
  unfolding be32_def
  by (auto simp: bit_simps not_less dest: bit_imp_le_length)

lemma bit_word_bytes:
  "bit (word_bytes w ! 0) n \<longleftrightarrow> n < 8 \<and> bit w (n + 24)"
  "bit (word_bytes w ! 1) n \<longleftrightarrow> n < 8 \<and> bit w (n + 16)"
  "bit (word_bytes w ! 2) n \<longleftrightarrow> n < 8 \<and> bit w (n + 8)"
  "bit (word_bytes w ! 3) n \<longleftrightarrow> n < 8 \<and> bit w n"
proof -
  have m: "(0xff::u32) = mask 8" by (simp add: mask_eq_exp_minus_1)
  show "bit (word_bytes w ! 0) n \<longleftrightarrow> n < 8 \<and> bit w (n + 24)"
    "bit (word_bytes w ! 1) n \<longleftrightarrow> n < 8 \<and> bit w (n + 16)"
    "bit (word_bytes w ! 2) n \<longleftrightarrow> n < 8 \<and> bit w (n + 8)"
    "bit (word_bytes w ! 3) n \<longleftrightarrow> n < 8 \<and> bit w n"
    unfolding word_bytes_def m
    by (auto simp: bit_simps ac_simps dest: bit_imp_le_length)
qed

lemma bit_word_bytes_Suc:
  "bit (word_bytes w ! Suc 0) n \<longleftrightarrow> n < 8 \<and> bit w (n + 16)"
  using bit_word_bytes(2) [of w n] by simp

lemma word_bytes_nth: "word_bytes w = [word_bytes w ! 0, word_bytes w ! 1, word_bytes w ! 2, word_bytes w ! 3]"
  by (simp add: word_bytes_def)

lemma word_bytes_be32: "word_bytes (be32 a b c d) = [a, b, c, d]"
proof -
  have "word_bytes (be32 a b c d) ! 0 = a" "word_bytes (be32 a b c d) ! 1 = b"
    "word_bytes (be32 a b c d) ! 2 = c" "word_bytes (be32 a b c d) ! 3 = d"
    by (rule bit_eqI; auto simp: bit_word_bytes bit_word_bytes_Suc bit_be32 dest: bit_imp_le_length)+
  then show ?thesis
    using word_bytes_nth [of "be32 a b c d"] by simp
qed

lemma be32_word_bytes:
  "be32 (word_bytes w ! 0) (word_bytes w ! 1) (word_bytes w ! 2) (word_bytes w ! 3) = w"
  by (rule bit_eqI) (auto simp: bit_word_bytes bit_word_bytes_Suc bit_be32 not_less dest: bit_imp_le_length)

lemma ecc_words_bytes:
  assumes "0 < mt"
  shows "4 * (DIV_ROUND_UP mt 32 - 1) < DIV_ROUND_UP mt 8"
    and "DIV_ROUND_UP mt 8 \<le> 4 * DIV_ROUND_UP mt 32"
  using assms unfolding DIV_ROUND_UP_def by arith+

lemma length4_nth: "length p = 4 \<Longrightarrow> [p ! 0, p ! 1, p ! 2, p ! 3] = p"
  by (auto simp: list_eq_iff_nth_eq less_Suc_eq numeral_eq_Suc)

lemma concat_quads:
  "4 * n \<le> length src \<Longrightarrow>
   concat (map (\<lambda>i. [src ! (4 * i), src ! (4 * i + 1), src ! (4 * i + 2), src ! (4 * i + 3)])
             [0..<n]) = take (4 * n) src"
proof (induction n)
  case 0
  then show ?case by simp
next
  case (Suc n)
  have "take (4 * Suc n) src = take (4 * n) src @ take 4 (drop (4 * n) src)"
    by (simp add: take_add [symmetric] add.commute)
  moreover have "take 4 (drop (4 * n) src) =
      [src ! (4 * n), src ! (4 * n + 1), src ! (4 * n + 2), src ! (4 * n + 3)]"
    using Suc.prems by (auto simp: list_eq_iff_nth_eq less_Suc_eq numeral_eq_Suc)
  ultimately show ?case
    using Suc by simp
qed

lemma store_load_ecc8:
  assumes mt: "0 < GF_M bch * GF_T bch" and len: "BCH_ECC_BYTES bch \<le> length ecc"
  shows "store_ecc8 bch ecc (load_ecc8 bch ecc) = ecc"
proof -
  define nw where "nw = BCH_ECC_WORDS bch - 1"
  define k where "k = BCH_ECC_BYTES bch - 4 * nw"
  define pad where "pad = take 4 (take k (drop (4 * nw) ecc) @ replicate 4 0)"
  define f where "f = (\<lambda>i. be32 (ecc ! (4 * i)) (ecc ! (4 * i + 1)) (ecc ! (4 * i + 2))
                          (ecc ! (4 * i + 3)))"
  have B: "4 * nw < BCH_ECC_BYTES bch" "BCH_ECC_BYTES bch \<le> 4 * nw + 4"
    using ecc_words_bytes [OF mt] unfolding nw_def BCH_ECC_WORDS_def BCH_ECC_BYTES_def
    by simp_all
  then have k: "k \<le> 4" "4 * nw + k = BCH_ECC_BYTES bch"
    unfolding k_def by simp_all
  have ld: "load_ecc8 bch ecc = map f [0..<nw] @ [be32 (pad ! 0) (pad ! 1) (pad ! 2) (pad ! 3)]"
    unfolding load_ecc8_def Let_def nw_def [symmetric] k_def [symmetric] pad_def [symmetric] f_def
    by (rule refl)
  have n1: "map (\<lambda>i. word_bytes (load_ecc8 bch ecc ! i)) [0..<nw] =
            map (\<lambda>i. [ecc ! (4 * i), ecc ! (4 * i + 1), ecc ! (4 * i + 2), ecc ! (4 * i + 3)])
              [0..<nw]"
    by (rule map_cong) (simp_all add: ld nth_append f_def word_bytes_be32)
  have n2: "load_ecc8 bch ecc ! nw = be32 (pad ! 0) (pad ! 1) (pad ! 2) (pad ! 3)"
    by (simp add: ld nth_append)
  have lp: "length pad = 4"
    by (simp add: pad_def)
  have "take k (word_bytes (load_ecc8 bch ecc ! nw)) = take k pad"
    unfolding n2 word_bytes_be32 length4_nth [OF lp] by (rule refl)
  also have "\<dots> = take k (drop (4 * nw) ecc)"
  proof -
    have "k \<le> length ecc - 4 * nw"
      using k len by arith
    then show ?thesis
      using k(1) by (simp add: pad_def min_def)
  qed
  finally have n3: "take k (word_bytes (load_ecc8 bch ecc ! nw)) = take k (drop (4 * nw) ecc)" .
  have "store_ecc8 bch ecc (load_ecc8 bch ecc) =
        take (4 * nw) ecc @ take k (drop (4 * nw) ecc) @ drop (BCH_ECC_BYTES bch) ecc"
    unfolding store_ecc8_def Let_def nw_def [symmetric] k_def [symmetric] n1 n3
    using concat_quads [of nw ecc] B len by simp
  also have "\<dots> = take (4 * nw + k) ecc @ drop (BCH_ECC_BYTES bch) ecc"
    by (simp add: take_add)
  also have "\<dots> = ecc"
    by (simp add: k)
  finally show ?thesis .
qed

lemma encode_words_len0: "encode_words bch addr data 0 buf = buf"
  by (simp add: encode_words_def encode_bch_unaligned_def Let_def)


section \<open>Shared facts about constructed codecs\<close>

lemma init_bch_ecc_macros:
  assumes "init_bch m t p = Some bch"
  shows "BCH_ECC_BYTES bch = ecc_bytes bch" "0 < GF_M bch * GF_T bch"
proof -
  from init_bch_SomeD [OF assms] have v: "5 \<le> m" "1 \<le> t"
    by blast+
  note f = init_bch_fields [OF assms]
  have "nat (m * t) = nat m * nat t"
    using v by (simp add: nat_mult_distrib)
  then show "BCH_ECC_BYTES bch = ecc_bytes bch"
    by (simp add: BCH_ECC_BYTES_def f)
  show "0 < GF_M bch * GF_T bch"
    using v by (simp add: f)
qed


section \<open>Return codes of the locator\<close>

lemma post_process_ok_iff:
  "snd (post_process nbits es) \<longleftrightarrow> (\<forall>e\<in>set es. e < nbits)"
proof (induction es)
  case Nil
  show ?case by simp
next
  case (Cons e es)
  obtain es' ok where p: "post_process nbits es = (es', ok)"
    by (cases "post_process nbits es")
  show ?case
    using Cons p by (cases "nbits \<le> e") (auto simp: Let_def)
qed

lemma locate_errors_codes:
  "0 \<le> fst (locate_errors bch len sy errloc) \<or> fst (locate_errors bch len sy errloc) = - 13"
  by (auto simp: locate_errors_def Let_def split: prod.splits)

lemma locate_errors_fail:
  assumes "compute_error_locator_polynomial bch sy = (err, elp)"
    and "err < 0 \<or> 0 < err \<and> (int (length (find_poly_roots bch 1 elp)) \<noteq> err \<or>
           (\<exists>e\<in>set (find_poly_roots bch 1 elp). len * 8 + ecc_bits bch \<le> e))"
  shows "fst (locate_errors bch len sy errloc) = - 13"
proof -
  obtain es ok where p: "post_process (len * 8 + ecc_bits bch) (find_poly_roots bch 1 elp) = (es, ok)"
    by (cases "post_process (len * 8 + ecc_bits bch) (find_poly_roots bch 1 elp)")
  have "(\<exists>e\<in>set (find_poly_roots bch 1 elp). len * 8 + ecc_bits bch \<le> e) \<Longrightarrow> \<not> ok"
    using post_process_ok_iff [of "len * 8 + ecc_bits bch" "find_poly_roots bch 1 elp"] p
    by (auto simp: not_less)
  then show ?thesis
    using assms p by (auto simp: locate_errors_def Let_def)
qed

lemma locate_errors_success:
  assumes "compute_error_locator_polynomial bch sy = (err, elp)"
    and "\<not> (err < 0 \<or> 0 < err \<and> (int (length (find_poly_roots bch 1 elp)) \<noteq> err \<or>
           (\<exists>e\<in>set (find_poly_roots bch 1 elp). len * 8 + ecc_bits bch \<le> e)))"
  shows "fst (locate_errors bch len sy errloc) = err"
proof -
  obtain es ok where p: "post_process (len * 8 + ecc_bits bch) (find_poly_roots bch 1 elp) = (es, ok)"
    by (cases "post_process (len * 8 + ecc_bits bch) (find_poly_roots bch 1 elp)")
  have "\<not> (\<exists>e\<in>set (find_poly_roots bch 1 elp). len * 8 + ecc_bits bch \<le> e) \<Longrightarrow> ok"
    using post_process_ok_iff [of "len * 8 + ecc_bits bch" "find_poly_roots bch 1 elp"] p
    by (auto simp: not_le)
  then show ?thesis
    using assms p by (auto simp: locate_errors_def Let_def)
qed

lemma decode_syndromes_codes:
  "snd (decode_syndromes bch addr data len recv calc) = Inl r \<Longrightarrow> r = 0 \<or> r = - 11"
  by (auto simp: decode_syndromes_def Let_def split: if_splits prod.splits)

lemma ceil_div8: "DIV_ROUND_UP x 8 = (x + 7) div 8"
  by (simp add: DIV_ROUND_UP_def)

section \<open>The logarithm table of a constructed codec\<close>

lemma gf_tables_loop_log_bound:
  "gf_tables_loop n poly k i x tabs = Some tabs' \<Longrightarrow>
   \<forall>y<length (snd tabs). snd tabs ! y < n \<Longrightarrow>
   length (snd tabs') = length (snd tabs) \<and> (\<forall>y<length (snd tabs'). snd tabs' ! y < n)"
proof (induction n poly k i x tabs rule: gf_tables_loop.induct)
  case (1 n poly k i x tabs)
  show ?case
  proof (cases "i < n")
    case False
    then have "tabs' = tabs"
      using "1.prems"(1) by (subst (asm) gf_tables_loop.simps) simp
    then show ?thesis
      using "1.prems"(2) by simp
  next
    case True
    obtain pw lg where t: "tabs = (pw, lg)"
      by (cases tabs)
    from "1.prems"(1) True t have c: "\<not> (i \<noteq> 0 \<and> x = 1)"
      and r: "gf_tables_loop n poly k (i + 1) (gf_next poly k x) (pw[i := x], lg[x := i])
                = Some tabs'"
      by (subst (asm) gf_tables_loop.simps; simp add: Let_def split: if_splits)+
    have b: "\<forall>y<length (snd (pw[i := x], lg[x := i])). snd (pw[i := x], lg[x := i]) ! y < n"
    proof (intro allI impI)
      fix y
      assume "y < length (snd (pw[i := x], lg[x := i]))"
      then have y: "y < length lg" by simp
      show "snd (pw[i := x], lg[x := i]) ! y < n"
      proof (cases "y = x")
        case True
        then show ?thesis using y \<open>i < n\<close> by simp
      next
        case False
        then show ?thesis using y "1.prems"(2) t by simp
      qed
    qed
    have "length (snd tabs') = length (snd (pw[i := x], lg[x := i])) \<and>
          (\<forall>y<length (snd tabs'). snd tabs' ! y < n)"
      using "1.IH" [OF True t [symmetric] refl refl c r b] .
    then show ?thesis
      using t by simp
  qed
qed

lemma alloc_bch_tables:
  "GF_M (alloc_bch m t) = nat m" "GF_N (alloc_bch m t) = 2 ^ nat m - 1"
  "a_pow_tab (alloc_bch m t) = replicate (2 ^ nat m) 0"
  "a_log_tab (alloc_bch m t) = replicate (2 ^ nat m) 0"
proof -
  have one: "1 + (2 ^ nat m - 1) = (2::nat) ^ nat m"
    by simp
  show "GF_M (alloc_bch m t) = nat m" "GF_N (alloc_bch m t) = 2 ^ nat m - 1"
    "a_pow_tab (alloc_bch m t) = replicate (2 ^ nat m) 0"
    "a_log_tab (alloc_bch m t) = replicate (2 ^ nat m) 0"
    unfolding alloc_bch_def Let_def one by simp_all
qed

lemma init_bch_log_bound:
  assumes "init_bch m t p = Some bch" and "y \<le> GF_N bch"
  shows "a_log_tab bch ! y < GF_N bch"
proof -
  from init_bch_SomeD [OF assms(1)] obtain b1 xt where
    v: "5 \<le> m"
    and b1: "build_gf_tables (alloc_bch m t) (if p = 0 then prim_poly_tab ! nat (m - 5) else p) = Some b1"
    and bch: "bch = (build_mod8_tables (b1\<lparr>ecc_bits := poly_deg (generator_poly b1)\<rparr>)
              (genpoly_words (poly_c (generator_poly b1)) (poly_deg (generator_poly b1) + 1)))
             \<lparr>xi_tab := xt\<rparr>"
    by blast
  from build_gf_tables_SomeD [OF b1] obtain pw lg where
    l: "gf_tables_loop (GF_N (alloc_bch m t)) (if p = 0 then prim_poly_tab ! nat (m - 5) else p)
          (2 ^ deg (if p = 0 then prim_poly_tab ! nat (m - 5) else p)) 0 1
          (a_pow_tab (alloc_bch m t), a_log_tab (alloc_bch m t)) = Some (pw, lg)"
    and e: "b1 = (alloc_bch m t)\<lparr>a_pow_tab := pw[GF_N (alloc_bch m t) := 1], a_log_tab := lg[0 := 0]\<rparr>"
    by blast
  have n: "GF_N (alloc_bch m t) = 2 ^ nat m - 1" "length (a_log_tab (alloc_bch m t)) = 2 ^ nat m"
    "\<forall>y<length (a_log_tab (alloc_bch m t)). a_log_tab (alloc_bch m t) ! y = 0"
    by (simp_all add: alloc_bch_tables)
  have pos': "1 < (2::nat) ^ nat m"
    using v one_less_power [of "2::nat" "nat m"] by simp
  then have pos: "0 < (2::nat) ^ nat m - 1"
    by simp
  have "length (snd (pw, lg)) = length (snd (a_pow_tab (alloc_bch m t), a_log_tab (alloc_bch m t)))
        \<and> (\<forall>y<length (snd (pw, lg)). snd (pw, lg) ! y < GF_N (alloc_bch m t))"
    by (rule gf_tables_loop_log_bound [OF l]) (use n pos' in simp)
  then have lg: "length lg = 2 ^ nat m" "\<forall>y<length lg. lg ! y < 2 ^ nat m - 1"
    using n by simp_all
  have "a_log_tab bch = lg[0 := 0]" "GF_N bch = 2 ^ nat m - 1"
    using bch e n by (simp_all add: build_mod8_tables_def)
  moreover have "y < length lg \<Longrightarrow> lg[0 := 0] ! y < 2 ^ nat m - 1"
    using lg(2) pos by (cases y) (simp_all add: nth_list_update)
  ultimately show ?thesis
    using assms(2) lg(1) pos by simp
qed

lemma bch51_root_example:
  "find_poly_roots bch51 1 \<lparr>poly_deg = 1, poly_c = [1, 5, 0, 0, 0]\<rparr> = [5]"
  by code_simp

lemma bch51_logs: "a_log_tab bch51 ! 1 = 0" "a_log_tab bch51 ! 5 = 5" "GF_N bch51 = 31"
  by code_simp+

section \<open>The degree of the generator polynomial\<close>

lemma gen_steps_deg:
  "poly_deg (fold (gen_step bch roots) xs g) =
     poly_deg g + length (filter (\<lambda>i. roots ! i \<noteq> 0) xs)"
  by (induction xs arbitrary: g) (simp_all add: gen_step_def Let_def)

lemma marked_upd: "length (filter (\<lambda>x. x \<noteq> 0) (roots[r := v])) \<le> Suc (length (filter (\<lambda>x. x \<noteq> (0::nat)) roots))"
proof (induction roots arbitrary: r)
  case Nil
  show ?case by simp
next
  case (Cons a roots)
  show ?case
    using Cons [of "r - 1"] by (cases r) (auto simp: le_Suc_eq)
qed

lemma mark_coset_count:
  "length (filter (\<lambda>x. x \<noteq> 0) (mark_coset bch j r roots)) \<le>
     length (filter (\<lambda>x. x \<noteq> 0) roots) + j"
proof (induction j arbitrary: r roots)
  case 0
  show ?case by simp
next
  case (Suc j)
  have "length (filter (\<lambda>x. x \<noteq> 0) (mark_coset bch (Suc j) r roots)) \<le>
        length (filter (\<lambda>x. x \<noteq> 0) (roots[r := 1])) + j"
    using Suc [of "mod_s bch (2 * r)" "roots[r := 1]"] by simp
  also have "\<dots> \<le> Suc (length (filter (\<lambda>x. x \<noteq> 0) roots)) + j"
    using marked_upd [of roots r 1] by simp
  finally show ?case by simp
qed

lemma mark_cosets_count:
  "length (filter (\<lambda>x. x \<noteq> 0) (fold (\<lambda>i roots. mark_coset bch m (2 * i + 1) roots) xs roots)) \<le>
     length (filter (\<lambda>x. x \<noteq> 0) roots) + m * length xs"
proof (induction xs arbitrary: roots)
  case Nil
  show ?case by simp
next
  case (Cons i xs)
  have "length (filter (\<lambda>x. x \<noteq> 0)
          (fold (\<lambda>i roots. mark_coset bch m (2 * i + 1) roots) (i # xs) roots)) \<le>
        length (filter (\<lambda>x. x \<noteq> 0) (mark_coset bch m (2 * i + 1) roots)) + m * length xs"
    using Cons [of "mark_coset bch m (2 * i + 1) roots"] by simp
  also have "\<dots> \<le> length (filter (\<lambda>x. x \<noteq> 0) roots) + m + m * length xs"
    using mark_coset_count [of bch m "2 * i + 1" roots] by simp
  finally show ?case by simp
qed

lemma enumerate_roots_count:
  "length (filter (\<lambda>x. x \<noteq> 0) (enumerate_roots bch)) \<le> GF_M bch * GF_T bch"
  using mark_cosets_count [of bch "GF_M bch" "[0..<GF_T bch]" "replicate (GF_N bch + 1) 0"]
  by (simp add: enumerate_roots_def)

lemma marked_indices:
  assumes "n \<le> length roots"
  shows "length (filter (\<lambda>i. roots ! i \<noteq> 0) [0..<n]) \<le>
         length (filter (\<lambda>x. x \<noteq> (0::nat)) roots)"
proof -
  have "filter (\<lambda>x. x \<noteq> 0) (map ((!) roots) [0..<n]) =
        map ((!) roots) (filter (\<lambda>i. roots ! i \<noteq> 0) [0..<n])"
    by (simp add: filter_map comp_def)
  then have "length (filter (\<lambda>i. roots ! i \<noteq> 0) [0..<n]) =
             length (filter (\<lambda>x. x \<noteq> 0) (map ((!) roots) [0..<n]))"
    by simp
  also have "map ((!) roots) [0..<n] = take n roots"
    using assms by (auto simp: list_eq_iff_nth_eq)
  also have "length (filter (\<lambda>x. x \<noteq> 0) (take n roots)) \<le>
             length (filter (\<lambda>x. x \<noteq> 0) (take n roots @ drop n roots))"
    by (simp del: append_take_drop_id)
  finally show ?thesis by simp
qed

lemma mark_coset_length: "length (mark_coset bch j r roots) = length roots"
  by (induction j arbitrary: r roots) simp_all

lemma enumerate_roots_length: "length (enumerate_roots bch) = GF_N bch + 1"
proof -
  have "length (fold (\<lambda>i roots. mark_coset bch m (2 * i + 1) roots) xs roots) = length roots"
    for m xs roots
    by (induction xs arbitrary: roots) (simp_all add: mark_coset_length)
  then show ?thesis
    by (simp add: enumerate_roots_def)
qed

lemma generator_poly_deg: "poly_deg (generator_poly bch) \<le> GF_M bch * GF_T bch"
proof -
  have "poly_deg (generator_poly bch) =
        length (filter (\<lambda>i. enumerate_roots bch ! i \<noteq> 0) [0..<GF_N bch])"
    by (simp add: generator_poly_def gen_steps_deg)
  also have "\<dots> \<le> length (filter (\<lambda>x. x \<noteq> 0) (enumerate_roots bch))"
    by (rule marked_indices) (simp add: enumerate_roots_length)
  also have "\<dots> \<le> GF_M bch * GF_T bch"
    by (rule enumerate_roots_count)
  finally show ?thesis .
qed

lemma init_bch_generator:
  assumes "init_bch m t p = Some bch"
  shows "ecc_bits bch = poly_deg (generator_poly bch)"
proof -
  from init_bch_SomeD [OF assms] obtain b1 xt where
    b1: "build_gf_tables (alloc_bch m t) (if p = 0 then prim_poly_tab ! nat (m - 5) else p) = Some b1"
    and bch: "bch = (build_mod8_tables (b1\<lparr>ecc_bits := poly_deg (generator_poly b1)\<rparr>)
              (genpoly_words (poly_c (generator_poly b1)) (poly_deg (generator_poly b1) + 1)))
             \<lparr>xi_tab := xt\<rparr>"
    by blast
  have "same_field b1 bch" "GF_T b1 = GF_T bch"
    by (simp_all add: bch same_field_def build_mod8_tables_def)
  then have "generator_poly b1 = generator_poly bch"
    by (rule same_field_generator_poly)
  then show ?thesis
    by (simp add: bch build_mod8_tables_def)
qed

lemma generator_poly_55:
  "generator_poly (lite 5 5 pw5 lg5) = \<lparr>poly_deg = 20,
     poly_c = [1, 0, 1, 0, 1, 0, 1, 1, 0, 1, 1, 0, 0, 1, 0, 0, 0, 1, 1, 0, 1, 0, 0, 0, 0, 0]\<rparr>"
  by code_simp

lemma deg2_base_55:
  "deg2_base_loop (lite 5 5 pw5 lg5) (find_ak (lite 5 5 pw5 lg5)) 0
     (replicate 5 0, replicate 5 0, 5) = ([0, 8, 10, 20, 14], [1, 1, 1, 1, 1], 0)"
  by code_simp

lemma init_bch_5_5_0:
  "map_option ecc_bits (init_bch 5 5 0) = Some 20"
  "map_option ecc_bytes (init_bch 5 5 0) = Some 4"
proof -
  have "init_bch 5 5 0 =
     Some ((build_mod8_tables
              ((alloc_bch 5 5)\<lparr>a_pow_tab := pw5[31 := 0, 2 ^ nat 5 - 1 := 1], a_log_tab := lg5[0 := 0],
                               ecc_bits := poly_deg (generator_poly (lite 5 5 pw5 lg5))\<rparr>)
              (genpoly_words (poly_c (generator_poly (lite 5 5 pw5 lg5)))
                 (poly_deg (generator_poly (lite 5 5 pw5 lg5)) + 1)))
            \<lparr>xi_tab := [0, 8, 10, 20, 14]\<rparr>)"
  proof (rule init_bch_eqI [where p' = "0x25" and b' = "lite 5 5 pw5 lg5"
        and xi = "[1, 1, 1, 1, 1]"])
    show "same_field (lite 5 5 pw5 lg5) (lite (nat 5) (nat 5) (pw5[31 := 0, 2 ^ nat 5 - 1 := 1]) (lg5[0 := 0]))"
      by (simp add: pw5_upd lg5_upd same_field_refl)
    show "gf_tables_loop (2 ^ nat 5 - 1) 0x25 (2 ^ nat 5) 0 1
            (replicate (2 ^ nat 5) 0, replicate (2 ^ nat 5) 0) = Some (pw5[31 := 0], lg5)"
      using gf_tables_loop_0x25 by simp
    show "deg2_base_loop (lite 5 5 pw5 lg5) (find_ak (lite 5 5 pw5 lg5)) 0
            (replicate (nat 5) 0, replicate (nat 5) 0, nat 5) = ([0, 8, 10, 20, 14], [1, 1, 1, 1, 1], 0)"
      using deg2_base_55 by simp
    show "0x25 = (if (0::nat) = 0 then prim_poly_tab ! nat (5 - 5) else 0)"
      by (simp add: prim_poly_tab_def)
    show "deg 0x25 = nat 5"
      using deg_0x25 by simp
    show "GF_T (lite 5 5 pw5 lg5) = nat 5"
      by (simp add: lite_def)
  qed simp_all
  then show "map_option ecc_bits (init_bch 5 5 0) = Some 20"
    "map_option ecc_bytes (init_bch 5 5 0) = Some 4"
    by (simp_all add: generator_poly_55 build_mod8_tables_def alloc_bch_def Let_def
        DIV_ROUND_UP_def)
qed

section \<open>A polynomial that is not primitive\<close>

definition pw20 :: "nat list" where
  "pw20 = [1, 2, 4, 8, 16, 0, 0, 0, 0, 0, 0, 0, 0, 0, 0, 0, 0, 0, 0, 0, 0, 0, 0, 0,
           0, 0, 0, 0, 0, 0, 0, 1]"

definition lg20 :: "nat list" where
  "lg20 = [0, 0, 1, 0, 2, 0, 0, 0, 3, 0, 0, 0, 0, 0, 0, 0, 4, 0, 0, 0, 0, 0, 0, 0,
           0, 0, 0, 0, 0, 0, 0, 0]"

lemma deg_0x20: "deg 0x20 = 5"
  by code_simp

lemma gf_tables_loop_0x20:
  "gf_tables_loop 31 0x20 32 0 1 (replicate 32 0, replicate 32 0) =
     Some (pw20[31 := 0], lg20[0 := 30])"
  by code_simp

lemma pw20_upd: "pw20[31 := 0, 31 := 1] = pw20" "pw20[31 := Suc 0] = pw20"
  "lg20[0 := 30, 0 := 0] = lg20" "lg20[0 := 0] = lg20"
  by code_simp+

lemma generator_poly_0x20:
  "generator_poly (lite 5 1 pw20 lg20) = \<lparr>poly_deg = 5, poly_c = [0, 0, 0, 24, 22, 1]\<rparr>"
  by code_simp

lemma deg2_base_0x20:
  "deg2_base_loop (lite 5 1 pw20 lg20) (find_ak (lite 5 1 pw20 lg20)) 0
     (replicate 5 0, replicate 5 0, 5) = ([0, 3, 5, 8, 16], [1, 1, 1, 1, 1], 0)"
  by code_simp

lemma init_bch_5_1_0x20:
  "init_bch 5 1 0x20 =
     Some ((build_mod8_tables
              ((alloc_bch 5 1)\<lparr>a_pow_tab := pw20[31 := 0, 2 ^ nat 5 - 1 := 1],
                               a_log_tab := lg20[0 := 30, 0 := 0],
                               ecc_bits := poly_deg (generator_poly (lite 5 1 pw20 lg20))\<rparr>)
              (genpoly_words (poly_c (generator_poly (lite 5 1 pw20 lg20)))
                 (poly_deg (generator_poly (lite 5 1 pw20 lg20)) + 1)))
            \<lparr>xi_tab := [0, 3, 5, 8, 16]\<rparr>)"
proof (rule init_bch_eqI [where p' = "0x20" and b' = "lite 5 1 pw20 lg20"
        and xi = "[1, 1, 1, 1, 1]"])
  show "same_field (lite 5 1 pw20 lg20)
          (lite (nat 5) (nat 1) (pw20[31 := 0, 2 ^ nat 5 - 1 := 1]) (lg20[0 := 30, 0 := 0]))"
    by (simp add: pw20_upd same_field_refl)
  show "gf_tables_loop (2 ^ nat 5 - 1) 0x20 (2 ^ nat 5) 0 1
          (replicate (2 ^ nat 5) 0, replicate (2 ^ nat 5) 0) = Some (pw20[31 := 0], lg20[0 := 30])"
    using gf_tables_loop_0x20 by simp
  show "deg2_base_loop (lite 5 1 pw20 lg20) (find_ak (lite 5 1 pw20 lg20)) 0
          (replicate (nat 5) 0, replicate (nat 5) 0, nat 5) = ([0, 3, 5, 8, 16], [1, 1, 1, 1, 1], 0)"
    using deg2_base_0x20 by simp
  show "0x20 = (if (0x20::nat) = 0 then prim_poly_tab ! nat (5 - 5) else 0x20)"
    by simp
  show "deg 0x20 = nat 5"
    using deg_0x20 by simp
  show "GF_T (lite 5 1 pw20 lg20) = nat 1"
    by (simp add: lite_def)
qed simp_all

lemma tables_0x20: "pw20 ! 5 = 0" "lg20 ! 0 = 0" "lg20 ! 3 = 0" "pw20 ! 0 = 1"
  by code_simp+

section \<open>Corrections that fit an int\<close>

lemma to_int32_small:
  assumes "e < 2 ^ 31"
  shows "to_int32 e = int e"
proof -
  have "sint (word_of_nat e :: u32) = signed_take_bit 31 (int e)"
    using signed_of_nat [where ?'b = 32 and ?'a = int, of e] by simp
  moreover have "int e < 2 ^ 31"
    using assms by (metis of_nat_less_iff of_nat_numeral of_nat_power)
  then have "signed_take_bit 31 (int e) = int e"
    by (intro signed_take_bit_int_eq_self) simp_all
  ultimately show ?thesis
    by (simp add: to_int32_def)
qed

lemma init_bch_n_small:
  assumes "init_bch m t p = Some bch"
  shows "GF_N bch < 2 ^ 15"
proof -
  from init_bch_SomeD [OF assms] have v: "5 \<le> m" "m \<le> 15"
    by blast+
  have "(2::nat) ^ nat m \<le> 2 ^ 15"
    using v by (intro power_increasing) simp_all
  then show ?thesis
    using init_bch_fields(2) [OF assms] by simp
qed

text \<open>The byte-wise and the bit-wise correction of one location, as the loops state them.\<close>

definition toggle_data_bit :: "nat \<Rightarrow> nat \<Rightarrow> u8 list \<Rightarrow> u8 list" where
  "toggle_data_bit len e data =
     (if e < 8 * len then data[e div 8 := data ! (e div 8) XOR push_bit (e mod 8) 1] else data)"

definition toggle_bit_byte :: "nat \<Rightarrow> nat \<Rightarrow> u8 list \<Rightarrow> u8 list" where
  "toggle_bit_byte m e databits = (if e < m then databits[e := databits ! e XOR 1] else databits)"

lemma length_toggle_data_bits: "length (fold (toggle_data_bit len) es data) = length data"
  by (induction es arbitrary: data) (simp_all add: toggle_data_bit_def)

lemma length_toggle_bit_bytes: "length (fold (toggle_bit_byte m) es databits) = length databits"
  by (induction es arbitrary: databits) (simp_all add: toggle_bit_byte_def)

lemma toggle_data_bits_frame:
  "\<forall>e\<in>set es. e < 8 * len \<longrightarrow> e div 8 \<noteq> j \<Longrightarrow> fold (toggle_data_bit len) es data ! j = data ! j"
  by (induction es arbitrary: data) (simp_all add: toggle_data_bit_def)

lemma toggle_bit_bytes_frame:
  "\<forall>e\<in>set es. e < m \<longrightarrow> e \<noteq> j \<Longrightarrow> fold (toggle_bit_byte m) es databits ! j = databits ! j"
  by (induction es arbitrary: databits) (simp_all add: toggle_bit_byte_def)

lemma correct_bch_fold:
  assumes "\<forall>e\<in>set es. e < 2 ^ 31" and "len \<le> length data"
  shows "fold (\<lambda>e res.
             case res of
               Inl err \<Rightarrow> Inl err
             | Inr data \<Rightarrow>
                 (if nat ((to_int32 e div 8) mod 2 ^ 32) < len
                  then (if 0 \<le> to_int32 e div 8 \<and> nat (to_int32 e div 8) < length data
                        then Inr (data[nat (to_int32 e div 8) :=
                                    data ! nat (to_int32 e div 8)
                                      XOR push_bit (nat (to_int32 e mod 8)) 1])
                        else Inl (OutOfBounds (to_int32 e div 8)))
                  else Inr data)) es (Inr data) =
         (Inr (fold (toggle_data_bit len) es data) :: mem_error + u8 list)"
  using assms
proof (induction es arbitrary: data)
  case Nil
  show ?case by simp
next
  case (Cons e es)
  have e: "e < 2 ^ 31"
    using Cons.prems(1) by simp
  have d: "to_int32 e div 8 = int (e div 8)" "to_int32 e mod 8 = int (e mod 8)"
    by (simp_all add: to_int32_small [OF e] zdiv_int zmod_int)
  have "e div 8 < 2 ^ 32"
    using e by simp
  then have m: "int (e div 8) mod 2 ^ 32 = int (e div 8)"
    by (metis mod_pos_pos_trivial of_nat_0_le_iff of_nat_less_iff of_nat_numeral of_nat_power)
  have c: "e div 8 < len \<longleftrightarrow> e < 8 * len"
    by arith
  have l: "len \<le> length (toggle_data_bit len e data)"
    using Cons.prems(2) by (simp add: toggle_data_bit_def)
  have s: "(if nat ((to_int32 e div 8) mod 2 ^ 32) < len
             then (if 0 \<le> to_int32 e div 8 \<and> nat (to_int32 e div 8) < length data
                   then Inr (data[nat (to_int32 e div 8) :=
                               data ! nat (to_int32 e div 8)
                                 XOR push_bit (nat (to_int32 e mod 8)) 1])
                   else Inl (OutOfBounds (to_int32 e div 8)))
             else Inr data) = (Inr (toggle_data_bit len e data) :: mem_error + u8 list)"
    unfolding d m using Cons.prems(2) c by (auto simp: toggle_data_bit_def)
  show ?case
    using Cons.IH [of "toggle_data_bit len e data"] Cons.prems(1) l
    by (simp only: fold_Cons comp_def sum.case s list.set insert_iff ball_simps) simp
qed

lemma correctbits_bch_fold:
  assumes "\<forall>e\<in>set es. e < 2 ^ 31" and "m \<le> length databits"
  shows "fold (\<lambda>e res.
                 case res of
                   Inl err \<Rightarrow> Inl err
                 | Inr databits \<Rightarrow>
                     (if to_int32 e < int m
                      then (if 0 \<le> to_int32 e \<and> nat (to_int32 e) < length databits
                            then Inr (databits[nat (to_int32 e) :=
                                        databits ! nat (to_int32 e) XOR 1])
                            else Inl (OutOfBounds (to_int32 e)))
                      else Inr databits)) es (Inr databits) =
         (Inr (fold (toggle_bit_byte m) es databits) :: mem_error + u8 list)"
  using assms
proof (induction es arbitrary: databits)
  case Nil
  show ?case by simp
next
  case (Cons e es)
  have e: "e < 2 ^ 31"
    using Cons.prems(1) by simp
  have l: "m \<le> length (toggle_bit_byte m e databits)"
    using Cons.prems(2) by (simp add: toggle_bit_byte_def)
  have s: "(if to_int32 e < int m
             then (if 0 \<le> to_int32 e \<and> nat (to_int32 e) < length databits
                   then Inr (databits[nat (to_int32 e) := databits ! nat (to_int32 e) XOR 1])
                   else Inl (OutOfBounds (to_int32 e)))
             else Inr databits) = (Inr (toggle_bit_byte m e databits) :: mem_error + u8 list)"
    unfolding to_int32_small [OF e] using Cons.prems(2) by (auto simp: toggle_bit_byte_def)
  show ?case
    using Cons.IH [of "toggle_bit_byte m e databits"] Cons.prems(1) l
    by (simp only: fold_Cons comp_def sum.case s list.set insert_iff ball_simps) simp
qed

section \<open>Loading what was stored\<close>

lemma concat_map_rows:
  assumes "\<forall>x\<in>set xs. length (f x) = l"
  shows "length (concat (map f xs)) = length xs * l"
    and "i < length xs \<Longrightarrow> j < l \<Longrightarrow> concat (map f xs) ! (i * l + j) = f (xs ! i) ! j"
  using assms
proof (induction xs arbitrary: i)
  case Nil
  {
    case 1
    show ?case by simp
  next
    case 2
    then show ?case by simp
  }
next
  case (Cons x xs)
  {
    case 1
    then show ?case using Cons.IH(1) by simp
  next
    case 2
    show ?case
    proof (cases i)
      case 0
      then show ?thesis using 2 by (simp add: nth_append)
    next
      case (Suc i')
      then have "concat (map f (x # xs)) ! (i * l + j) = concat (map f xs) ! (i' * l + j)"
        using 2 by (simp add: nth_append)
      also have "\<dots> = f (xs ! i') ! j"
        using Cons.IH(2) [of i'] 2 Suc by simp
      finally show ?thesis using Suc by simp
    qed
  }
qed

lemma low_bits_zero: "take_bit k w = 0 \<Longrightarrow> n < k \<Longrightarrow> \<not> bit w n" for w :: u32
  by (metis bit_take_bit_iff bit_0_eq bot_apply bot_bool_def)

lemma be32_low_zero:
  fixes w :: u32
  assumes "1 \<le> k" "k \<le> 4" and "take_bit (8 * (4 - k)) w = 0"
  shows "be32 (if 0 < k then word_bytes w ! 0 else 0) (if 1 < k then word_bytes w ! 1 else 0)
              (if 2 < k then word_bytes w ! 2 else 0) (if 3 < k then word_bytes w ! 3 else 0) = w"
proof -
  note z = low_bits_zero [OF assms(3)]
  from assms(1,2) consider "k = 1" | "k = 2" | "k = 3" | "k = 4"
    by arith
  then show ?thesis
  proof cases
    case 1
    show ?thesis
      unfolding 1 using z
      by (intro bit_eqI) (auto simp: 1 bit_be32 bit_word_bytes not_less dest: bit_imp_le_length)
  next
    case 2
    show ?thesis
      unfolding 2 using z
      by (intro bit_eqI)
        (auto simp: 2 bit_be32 bit_word_bytes bit_word_bytes_Suc not_less dest: bit_imp_le_length)
  next
    case 3
    show ?thesis
      unfolding 3 using z
      by (intro bit_eqI)
        (auto simp: 3 bit_be32 bit_word_bytes bit_word_bytes_Suc not_less dest: bit_imp_le_length)
  next
    case 4
    show ?thesis
      unfolding 4 using be32_word_bytes [of w] by simp
  qed
qed

lemma ecc_words_pos: "0 < GF_M bch * GF_T bch \<Longrightarrow> 0 < BCH_ECC_WORDS bch"
  unfolding BCH_ECC_WORDS_def DIV_ROUND_UP_def by arith

lemma ecc_words_bytes_macros:
  assumes "0 < GF_M bch * GF_T bch"
  shows "4 * (BCH_ECC_WORDS bch - 1) < BCH_ECC_BYTES bch"
    and "BCH_ECC_BYTES bch \<le> 4 * (BCH_ECC_WORDS bch - 1) + 4"
  using ecc_words_bytes [OF assms] unfolding BCH_ECC_WORDS_def BCH_ECC_BYTES_def
  by simp_all

text \<open>\<^verbatim>\<open>load_ecc8\<close> word by word: byte \<open>j\<close> of the source, or \<open>0\<close> from byte \<open>BCH_ECC_BYTES\<close> on.\<close>

lemma load_ecc8_words:
  assumes mt: "0 < GF_M bch * GF_T bch" and len: "BCH_ECC_BYTES bch \<le> length src"
  shows "load_ecc8 bch src =
     map (\<lambda>i. be32 (if 4 * i < BCH_ECC_BYTES bch then src ! (4 * i) else 0)
                   (if 4 * i + 1 < BCH_ECC_BYTES bch then src ! (4 * i + 1) else 0)
                   (if 4 * i + 2 < BCH_ECC_BYTES bch then src ! (4 * i + 2) else 0)
                   (if 4 * i + 3 < BCH_ECC_BYTES bch then src ! (4 * i + 3) else 0))
       [0..<BCH_ECC_WORDS bch]"
proof -
  define nw where "nw = BCH_ECC_WORDS bch - 1"
  define B where "B = BCH_ECC_BYTES bch"
  define k where "k = B - 4 * nw"
  define pad where "pad = take 4 (take k (drop (4 * nw) src) @ replicate 4 0)"
  have W: "BCH_ECC_WORDS bch = Suc nw"
    using ecc_words_pos [OF mt] by (simp add: nw_def)
  have Bb: "4 * nw < B" "B \<le> 4 * nw + 4"
    using ecc_words_bytes_macros [OF mt] by (simp_all add: nw_def B_def)
  have k: "1 \<le> k" "k \<le> 4" "4 * nw + k = B"
    using Bb by (simp_all add: k_def)
  have pn: "pad ! j = (if 4 * nw + j < B then src ! (4 * nw + j) else 0)" if "j < 4" for j
  proof (cases "j < k")
    case True
    then have "j < length src - 4 * nw" "4 * nw + j < B"
      using k len by (simp_all add: B_def)
    then show ?thesis
      using True that k by (simp add: pad_def nth_append)
  next
    case False
    have "length (take k (drop (4 * nw) src)) = k"
      using k len by (simp add: B_def)
    then show ?thesis
      using False that k by (simp add: pad_def nth_append)
  qed
  have "load_ecc8 bch src =
        map (\<lambda>i. be32 (src ! (4 * i)) (src ! (4 * i + 1)) (src ! (4 * i + 2)) (src ! (4 * i + 3)))
          [0..<nw] @ [be32 (pad ! 0) (pad ! 1) (pad ! 2) (pad ! 3)]"
    unfolding load_ecc8_def Let_def nw_def [symmetric] B_def [symmetric] k_def [symmetric]
      pad_def [symmetric]
    by (rule refl)
  also have "map (\<lambda>i. be32 (src ! (4 * i)) (src ! (4 * i + 1)) (src ! (4 * i + 2)) (src ! (4 * i + 3)))
          [0..<nw] =
        map (\<lambda>i. be32 (if 4 * i < B then src ! (4 * i) else 0)
                   (if 4 * i + 1 < B then src ! (4 * i + 1) else 0)
                   (if 4 * i + 2 < B then src ! (4 * i + 2) else 0)
                   (if 4 * i + 3 < B then src ! (4 * i + 3) else 0)) [0..<nw]"
    using Bb by (intro map_cong) auto
  also have "be32 (pad ! 0) (pad ! 1) (pad ! 2) (pad ! 3) =
        be32 (if 4 * nw < B then src ! (4 * nw) else 0)
             (if 4 * nw + 1 < B then src ! (4 * nw + 1) else 0)
             (if 4 * nw + 2 < B then src ! (4 * nw + 2) else 0)
             (if 4 * nw + 3 < B then src ! (4 * nw + 3) else 0)"
    using pn [of 0] pn [of 1] pn [of 2] pn [of 3] by simp
  finally show ?thesis
    unfolding W B_def [symmetric] by simp
qed

lemma be32_zero: "be32 0 0 0 0 = 0"
  by (simp add: be32_def)


lemma load_ecc8_zero:
  assumes "0 < GF_M bch * GF_T bch" and "BCH_ECC_BYTES bch \<le> n"
  shows "load_ecc8 bch (replicate n 0) = replicate (BCH_ECC_WORDS bch) 0"
proof -
  have "load_ecc8 bch (replicate n 0) = map (\<lambda>i. 0) [0..<BCH_ECC_WORDS bch]"
    unfolding load_ecc8_words [OF assms(1), of "replicate n 0", simplified, OF assms(2)]
    using assms(2) by (intro map_cong) (auto simp: be32_zero)
  then show ?thesis
    by (simp add: map_replicate_const)
qed



lemma store_ecc8_bytes:
  assumes mt: "0 < GF_M bch * GF_T bch"
  shows "BCH_ECC_BYTES bch \<le> length (store_ecc8 bch dst r)"
    and "j < BCH_ECC_BYTES bch \<Longrightarrow>
         store_ecc8 bch dst r ! j = word_bytes (r ! (j div 4)) ! (j mod 4)"
proof -
  define nw where "nw = BCH_ECC_WORDS bch - 1"
  define B where "B = BCH_ECC_BYTES bch"
  define k where "k = B - 4 * nw"
  define C where "C = concat (map (\<lambda>i. word_bytes (r ! i)) [0..<nw])"
  define T where "T = take k (word_bytes (r ! nw))"
  have Bb: "4 * nw < B" "B \<le> 4 * nw + 4"
    using ecc_words_bytes_macros [OF mt] by (simp_all add: nw_def B_def)
  have k: "1 \<le> k" "k \<le> 4" "4 * nw + k = B"
    using Bb by (simp_all add: k_def)
  have r4: "\<forall>x\<in>set [0..<nw]. length (word_bytes (r ! x)) = 4"
    by (simp add: word_bytes_def)
  have lC: "length C = 4 * nw"
    using concat_map_rows(1) [OF r4] by (simp add: C_def)
  have lT: "length T = k"
    using k by (simp add: T_def word_bytes_def)
  have S: "store_ecc8 bch dst r = C @ T @ drop B dst"
    unfolding store_ecc8_def Let_def nw_def [symmetric] B_def [symmetric] k_def [symmetric]
      C_def T_def
    by (rule refl)
  show "BCH_ECC_BYTES bch \<le> length (store_ecc8 bch dst r)"
    unfolding S B_def [symmetric] using lC lT k by simp
  show "store_ecc8 bch dst r ! j = word_bytes (r ! (j div 4)) ! (j mod 4)"
    if "j < BCH_ECC_BYTES bch"
  proof (cases "j < 4 * nw")
    case True
    then have d: "j div 4 < nw" "j mod 4 < 4"
      by simp_all
    have "C ! (j div 4 * 4 + j mod 4) = word_bytes (r ! ([0..<nw] ! (j div 4))) ! (j mod 4)"
      unfolding C_def using concat_map_rows(2) [OF r4, of "j div 4" "j mod 4"] d by simp
    then have "C ! j = word_bytes (r ! (j div 4)) ! (j mod 4)"
      using d by simp
    then show ?thesis
      unfolding S using True lC by (simp add: nth_append)
  next
    case False
    then have j: "j div 4 = nw" "j mod 4 = j - 4 * nw" "j - 4 * nw < k"
      using that k by (simp_all add: B_def [symmetric]; arith)+
    have "(C @ T @ drop B dst) ! j = T ! (j - 4 * nw)"
      using False lC lT j(3) by (simp add: nth_append)
    then show ?thesis
      unfolding S using j by (simp add: T_def)
  qed
qed

lemma load_store_ecc8:
  assumes mt: "0 < GF_M bch * GF_T bch"
    and len: "length r = BCH_ECC_WORDS bch"
    and lowz: "take_bit (8 * (4 * BCH_ECC_WORDS bch - BCH_ECC_BYTES bch))
                 (r ! (BCH_ECC_WORDS bch - 1)) = 0"
  shows "load_ecc8 bch (store_ecc8 bch dst r) = r"
proof -
  define nw where "nw = BCH_ECC_WORDS bch - 1"
  define B where "B = BCH_ECC_BYTES bch"
  define k where "k = B - 4 * nw"
  have W: "BCH_ECC_WORDS bch = Suc nw"
    using ecc_words_pos [OF mt] by (simp add: nw_def)
  have Bb: "4 * nw < B" "B \<le> 4 * nw + 4"
    using ecc_words_bytes_macros [OF mt] by (simp_all add: nw_def B_def)
  have k: "1 \<le> k" "k \<le> 4" "4 * nw + k = B"
    using Bb by (simp_all add: k_def)
  have z: "take_bit (8 * (4 - k)) (r ! nw) = 0"
  proof -
    have "4 * BCH_ECC_WORDS bch - BCH_ECC_BYTES bch = 4 - k"
      using k W by (simp add: B_def [symmetric])
    then show ?thesis
      using lowz by (simp add: nw_def)
  qed
  note sb = store_ecc8_bytes [OF mt, where dst = dst and r = r]
  have w: "be32 (if 4 * i < B then store_ecc8 bch dst r ! (4 * i) else 0)
                (if 4 * i + 1 < B then store_ecc8 bch dst r ! (4 * i + 1) else 0)
                (if 4 * i + 2 < B then store_ecc8 bch dst r ! (4 * i + 2) else 0)
                (if 4 * i + 3 < B then store_ecc8 bch dst r ! (4 * i + 3) else 0) = r ! i"
    if "i < Suc nw" for i
  proof (cases "i < nw")
    case True
    then have "4 * i + 3 < B"
      using Bb by simp
    then have "4 * i < B" "4 * i + 1 < B" "4 * i + 2 < B"
      by simp_all
    moreover have "(4 * i) div 4 = i" "(4 * i + 1) div 4 = i" "(4 * i + 2) div 4 = i"
      "(4 * i + 3) div 4 = i" "(4 * i) mod 4 = 0" "(4 * i + 1) mod 4 = 1"
      "(4 * i + 2) mod 4 = 2" "(4 * i + 3) mod 4 = 3"
      by arith+
    ultimately show ?thesis
      using \<open>4 * i + 3 < B\<close> sb(2) [of "4 * i"] sb(2) [of "4 * i + 1"] sb(2) [of "4 * i + 2"]
        sb(2) [of "4 * i + 3"] be32_word_bytes [of "r ! i"]
      by (simp add: B_def)
  next
    case False
    then have i: "i = nw"
      using that by simp
    have c: "4 * nw < B \<longleftrightarrow> 0 < k" "4 * nw + 1 < B \<longleftrightarrow> 1 < k"
      "4 * nw + 2 < B \<longleftrightarrow> 2 < k" "4 * nw + 3 < B \<longleftrightarrow> 3 < k"
      using k by arith+
    have d: "(4 * nw) div 4 = nw" "(4 * nw + 1) div 4 = nw" "(4 * nw + 2) div 4 = nw"
      "(4 * nw + 3) div 4 = nw" "(4 * nw) mod 4 = 0" "(4 * nw + 1) mod 4 = 1"
      "(4 * nw + 2) mod 4 = 2" "(4 * nw + 3) mod 4 = 3"
      by arith+
    have "be32 (if 0 < k then store_ecc8 bch dst r ! (4 * nw) else 0)
               (if 1 < k then store_ecc8 bch dst r ! (4 * nw + 1) else 0)
               (if 2 < k then store_ecc8 bch dst r ! (4 * nw + 2) else 0)
               (if 3 < k then store_ecc8 bch dst r ! (4 * nw + 3) else 0) =
          be32 (if 0 < k then word_bytes (r ! nw) ! 0 else 0)
               (if 1 < k then word_bytes (r ! nw) ! 1 else 0)
               (if 2 < k then word_bytes (r ! nw) ! 2 else 0)
               (if 3 < k then word_bytes (r ! nw) ! 3 else 0)"
      using sb(2) [of "4 * nw"] sb(2) [of "4 * nw + 1"] sb(2) [of "4 * nw + 2"]
        sb(2) [of "4 * nw + 3"] c d
      by (auto simp: B_def [symmetric])
    also have "\<dots> = r ! nw"
      by (rule be32_low_zero [OF k(1,2) z])
    finally show ?thesis
      unfolding i c .
  qed
  have "load_ecc8 bch (store_ecc8 bch dst r) = map (\<lambda>i. r ! i) [0..<Suc nw]"
    unfolding load_ecc8_words [OF mt sb(1)] W B_def [symmetric]
    by (intro map_cong refl w) auto
  also have "\<dots> = r"
    using len W map_nth [of r] by (simp del: upt_Suc)
  finally show ?thesis .
qed

lemma fold_or_zero_iff:
  fixes s :: u32
  shows "fold (\<lambda>i sum. sum OR a ! i) xs s = 0 \<longleftrightarrow> s = 0 \<and> (\<forall>i\<in>set xs. a ! i = 0)"
  by (induction xs arbitrary: s) (auto simp: or_eq_0_iff)

lemma or_words_zero_iff:
  "or_words bch a = 0 \<longleftrightarrow> (\<forall>i<BCH_ECC_WORDS bch. a ! i = 0)"
  by (auto simp: or_words_def fold_or_zero_iff)

lemma xor_words_nth:
  "i < BCH_ECC_WORDS bch \<Longrightarrow> xor_words bch a b ! i = a ! i XOR b ! i"
  by (simp add: xor_words_def nth_append)

section \<open>The low bits of the parity words\<close>

lemma take_bit_zero_mono:
  fixes w :: u32
  assumes "take_bit n w = 0" and "m \<le> n"
  shows "take_bit m w = 0"
proof -
  have "take_bit m w = take_bit m (take_bit n w)"
    using assms(2) by (simp add: min_def)
  then show ?thesis
    using assms(1) by simp
qed

lemma take_bit_push_bit_zero:
  fixes w :: u32
  assumes "take_bit (k - s) w = 0"
  shows "take_bit k (push_bit s w) = 0"
  using assms by (simp add: take_bit_push_bit)

lemma genpoly_word_low:
  assumes "\<forall>j\<in>set js. j < nbits" and "nbits \<le> 32" and "take_bit (32 - nbits) w = 0"
  shows "take_bit (32 - nbits)
           (fold (\<lambda>j word. if c ! (n - 1 - j) \<noteq> 0 then word OR push_bit (31 - j) 1 else word)
              js (w :: u32)) = 0"
  using assms
proof (induction js arbitrary: w)
  case Nil
  then show ?case by simp
next
  case (Cons j js)
  have "j < nbits"
    using Cons.prems(1) by simp
  then have "take_bit (32 - nbits) (push_bit (31 - j) (1::u32)) = 0"
    using Cons.prems(2) by (intro take_bit_push_bit_zero) simp
  then have "take_bit (32 - nbits)
               (if c ! (n - 1 - j) \<noteq> 0 then w OR push_bit (31 - j) 1 else w) = 0"
    using Cons.prems(3) by (simp add: take_bit_or del: push_bit_of_1)
  then show ?case
    using Cons.IH Cons.prems(1,2) by simp
qed

lemma genpoly_words_shape:
  "length (genpoly_words c n) = DIV_ROUND_UP n 32 \<and>
   (0 < n \<longrightarrow> take_bit (32 * DIV_ROUND_UP n 32 - n)
                  (genpoly_words c n ! (DIV_ROUND_UP n 32 - 1)) = 0)"
proof (induction c n rule: genpoly_words.induct)
  case (1 c n)
  show ?case
  proof (cases "0 < n")
    case False
    then show ?thesis
      by (subst genpoly_words.simps) (simp add: DIV_ROUND_UP_def)
  next
    case True
    show ?thesis
    proof (cases "n > 32")
      case big: True
      have e: "genpoly_words c n = genpoly_word c n 32 # genpoly_words c (n - 32)"
        using True big by (subst genpoly_words.simps) simp
      have d: "DIV_ROUND_UP n 32 = Suc (DIV_ROUND_UP (n - 32) 32)"
        using big unfolding DIV_ROUND_UP_def by arith
      have p: "0 < DIV_ROUND_UP (n - 32) 32"
        using big unfolding DIV_ROUND_UP_def by arith
      have s: "32 * Suc (DIV_ROUND_UP (n - 32) 32) - n = 32 * DIV_ROUND_UP (n - 32) 32 - (n - 32)"
        using big by simp
      note ih = "1.IH" [OF True refl]
      have ih': "length (genpoly_words c (n - 32)) = DIV_ROUND_UP (n - 32) 32"
        "take_bit (32 * DIV_ROUND_UP (n - 32) 32 - (n - 32))
           (genpoly_words c (n - 32) ! (DIV_ROUND_UP (n - 32) 32 - 1)) = 0"
        using ih big by simp_all
      show ?thesis
        unfolding e d s using ih' p by (simp add: nth_Cons')
    next
      case small: False
      have z: "genpoly_words c 0 = []"
        by (subst genpoly_words.simps) simp
      have e: "genpoly_words c n = [genpoly_word c n n]"
        using True small by (subst genpoly_words.simps) (simp add: z)
      have d: "DIV_ROUND_UP n 32 = 1"
        using True small unfolding DIV_ROUND_UP_def by arith
      have "take_bit (32 - n) (genpoly_word c n n) = 0"
        unfolding genpoly_word_def using small by (intro genpoly_word_low) simp_all
      then show ?thesis
        unfolding e d by simp
    qed
  qed
qed

text \<open>One round of the inner loop of \<^verbatim>\<open>build_mod8_tables\<close> and the whole row.\<close>

lemma mod8_inner_low:
  fixes tab :: "u32 list"
  assumes "\<forall>j\<in>set js. j < W" and "length tab = W"
    and "take_bit kk (tab ! (W - 1)) = 0"
    and "W - 1 \<in> set js \<Longrightarrow> take_bit kk (v (W - 1)) = 0"
  shows "length (fold (\<lambda>j tab. tab[j := tab ! j XOR v j]) js tab) = W \<and>
         take_bit kk (fold (\<lambda>j tab. tab[j := tab ! j XOR v j]) js tab ! (W - 1)) = 0"
  using assms
proof (induction js arbitrary: tab)
  case Nil
  then show ?case by simp
next
  case (Cons j js)
  have j: "j < W"
    using Cons.prems(1) by simp
  have "take_bit kk (tab[j := tab ! j XOR v j] ! (W - 1)) = 0"
  proof (cases "j = W - 1")
    case True
    then show ?thesis
      using j Cons.prems(2,3,4) by (simp add: take_bit_xor)
  next
    case False
    then show ?thesis
      using Cons.prems(3) by simp
  qed
  then show ?case
    using Cons.IH [of "tab[j := tab ! j XOR v j]"] Cons.prems by simp
qed

lemma mod8_row_loop_low:
  fixes tab :: "u32 list"
  assumes "ecclen \<le> W" and "length tab = W" and "take_bit kk (tab ! (W - 1)) = 0"
    and "\<And>d. ecclen = W \<Longrightarrow>
           take_bit kk ((if d < 31 then push_bit (d + 1) (g ! (W - 1)) else 0) OR
                        (if W - 1 + 1 < plen then drop_bit (31 - d) (g ! (W - 1 + 1)) else 0)) = 0"
  shows "length (mod8_row_loop g ecclen plen data tab) = W \<and>
         take_bit kk (mod8_row_loop g ecclen plen data tab ! (W - 1)) = 0"
  using assms
proof (induction g ecclen plen data tab rule: mod8_row_loop.induct)
  case (1 g ecclen plen data tab)
  show ?case
  proof (cases "data \<noteq> 0")
    case False
    then show ?thesis
      using "1.prems" by (subst (1 2) mod8_row_loop.simps) simp
  next
    case True
    define d where "d = deg (unat data)"
    define data' where "data' = data XOR drop_bit (31 - d) (g ! 0)"
    define v where "v = (\<lambda>j. (if d < 31 then push_bit (d + 1) (g ! j) else 0) OR
                        (if j + 1 < plen then drop_bit (31 - d) (g ! (j + 1)) else 0))"
    define tab' where "tab' = fold (\<lambda>j tab. tab[j := tab ! j XOR v j]) [0..<ecclen] tab"
    have t: "length tab' = W \<and> take_bit kk (tab' ! (W - 1)) = 0"
      unfolding tab'_def
    proof (rule mod8_inner_low)
      show "\<forall>j\<in>set [0..<ecclen]. j < W"
        using "1.prems"(1) by simp
      show "length tab = W" "take_bit kk (tab ! (W - 1)) = 0"
        using "1.prems" by simp_all
      assume "W - 1 \<in> set [0..<ecclen]"
      then have "ecclen = W"
        using "1.prems"(1) by simp
      then show "take_bit kk (v (W - 1)) = 0"
        unfolding v_def by (rule "1.prems"(4))
    qed
    have e: "mod8_row_loop g ecclen plen data tab =
             (if data' < data then mod8_row_loop g ecclen plen data' tab' else tab')"
      unfolding d_def data'_def tab'_def v_def
      using True by (subst mod8_row_loop.simps) (simp add: Let_def)
    show ?thesis
    proof (cases "data' < data")
      case False
      then show ?thesis
        using e t by simp
    next
      case less: True
      have "length (mod8_row_loop g ecclen plen data' tab') = W \<and>
            take_bit kk (mod8_row_loop g ecclen plen data' tab' ! (W - 1)) = 0"
        using "1.IH" [OF True refl refl refl less [unfolded data'_def d_def], unfolded Let_def]
          t "1.prems"(1,4)
        unfolding tab'_def v_def d_def data'_def
        by blast
      then show ?thesis
        using e less by simp
    qed
  qed
qed

text \<open>The number of unused low bits of the last parity word, by the byte count.\<close>

definition pad_bits :: "bch_control \<Rightarrow> nat" where
  "pad_bits bch = 8 * (4 * BCH_ECC_WORDS bch - BCH_ECC_BYTES bch)"

definition parity_inv :: "bch_control \<Rightarrow> u32 list \<Rightarrow> bool" where
  "parity_inv bch r \<longleftrightarrow>
     length r = BCH_ECC_WORDS bch \<and> take_bit (pad_bits bch) (r ! (BCH_ECC_WORDS bch - 1)) = 0"

lemma DIV_ROUND_UP_mono: "a \<le> b \<Longrightarrow> DIV_ROUND_UP a n \<le> DIV_ROUND_UP b n"
  unfolding DIV_ROUND_UP_def by (intro div_le_mono) simp

lemma mod8_rows_low:
  assumes E: "E \<le> GF_M bch * GF_T bch" and mt: "0 < GF_M bch * GF_T bch"
    and eb: "ecc_bits bch = E"
  shows "length (mod8_row bch (genpoly_words c (E + 1)) b i) = BCH_ECC_WORDS bch \<and>
         take_bit (pad_bits bch)
           (mod8_row bch (genpoly_words c (E + 1)) b i ! (BCH_ECC_WORDS bch - 1)) = 0"
proof -
  define W where "W = BCH_ECC_WORDS bch"
  define B where "B = BCH_ECC_BYTES bch"
  define kk where "kk = pad_bits bch"
  define gw where "gw = genpoly_words c (E + 1)"
  have Wp: "0 < W"
    using ecc_words_pos [OF mt] by (simp add: W_def)
  have kE: "kk \<le> 32 * W - E"
    using E unfolding kk_def pad_bits_def W_def BCH_ECC_WORDS_def BCH_ECC_BYTES_def
      DIV_ROUND_UP_def
    by arith
  have el: "DIV_ROUND_UP E 32 \<le> W"
    unfolding W_def BCH_ECC_WORDS_def by (rule DIV_ROUND_UP_mono [OF E])
  have V: "take_bit kk ((if d < 31 then push_bit (d + 1) (gw ! (W - 1)) else 0) OR
              (if W - 1 + 1 < DIV_ROUND_UP (E + 1) 32
               then drop_bit (31 - d) (gw ! (W - 1 + 1)) else 0)) = 0"
    if full: "DIV_ROUND_UP E 32 = W" for d
  proof (cases "E = 32 * W")
    case True
    then have "kk = 0"
      using kE by simp
    then show ?thesis
      by simp
  next
    case False
    have pl: "DIV_ROUND_UP (E + 1) 32 = W"
      using full False unfolding DIV_ROUND_UP_def by arith
    have "take_bit (32 * DIV_ROUND_UP (E + 1) 32 - (E + 1)) (gw ! (DIV_ROUND_UP (E + 1) 32 - 1)) = 0"
      using genpoly_words_shape [of c "E + 1"] by (simp add: gw_def)
    then have g: "take_bit (32 * W - (E + 1)) (gw ! (W - 1)) = 0"
      unfolding pl .
    have "take_bit (kk - (d + 1)) (gw ! (W - 1)) = 0"
      using g by (rule take_bit_zero_mono) (use kE in arith)
    then have "take_bit kk (push_bit (d + 1) (gw ! (W - 1))) = 0"
      by (rule take_bit_push_bit_zero)
    then show ?thesis
      using pl Wp by (simp add: take_bit_or)
  qed
  have "length (mod8_row_loop gw (DIV_ROUND_UP E 32) (DIV_ROUND_UP (E + 1) 32)
                 (push_bit (8 * b) (word_of_nat i)) (replicate W 0)) = W \<and>
        take_bit kk (mod8_row_loop gw (DIV_ROUND_UP E 32) (DIV_ROUND_UP (E + 1) 32)
                 (push_bit (8 * b) (word_of_nat i)) (replicate W 0) ! (W - 1)) = 0"
    by (rule mod8_row_loop_low [OF el]) (use Wp V in simp_all)
  then show ?thesis
    unfolding mod8_row_def eb W_def kk_def gw_def .
qed

lemma init_bch_mod8_tab:
  assumes "init_bch m t p = Some bch"
  obtains b' c where
    "mod8_tab bch =
       concat (map (\<lambda>b. concat (map (\<lambda>i. mod8_row b' (genpoly_words c (ecc_bits bch + 1)) b i)
                                  [0..<256])) [0..<4])"
    "ecc_bits b' = ecc_bits bch" "GF_M b' = GF_M bch" "GF_T b' = GF_T bch"
proof -
  from init_bch_SomeD [OF assms] obtain b1 xt where
    bch: "bch = (build_mod8_tables (b1\<lparr>ecc_bits := poly_deg (generator_poly b1)\<rparr>)
              (genpoly_words (poly_c (generator_poly b1)) (poly_deg (generator_poly b1) + 1)))
             \<lparr>xi_tab := xt\<rparr>"
    by blast
  show thesis
    by (rule that [of "b1\<lparr>ecc_bits := poly_deg (generator_poly b1)\<rparr>" "poly_c (generator_poly b1)"])
      (simp_all add: bch build_mod8_tables_def)
qed

lemma init_bch_ecc_bits_le:
  assumes "init_bch m t p = Some bch"
  shows "ecc_bits bch \<le> GF_M bch * GF_T bch"
  using init_bch_generator [OF assms] generator_poly_deg [of bch] by simp

lemma init_bch_mod8_low:
  assumes init: "init_bch m t p = Some bch" and b: "b < 4" and i: "i < 256"
  shows "take_bit (pad_bits bch)
           (mod8_tab bch ! (b * (256 * BCH_ECC_WORDS bch) + (i * BCH_ECC_WORDS bch
              + (BCH_ECC_WORDS bch - 1)))) = 0"
proof -
  define W where "W = BCH_ECC_WORDS bch"
  from init_bch_mod8_tab [OF init] obtain b' c where
    tab: "mod8_tab bch =
       concat (map (\<lambda>b. concat (map (\<lambda>i. mod8_row b' (genpoly_words c (ecc_bits bch + 1)) b i)
                                  [0..<256])) [0..<4])"
    and f: "ecc_bits b' = ecc_bits bch" "GF_M b' = GF_M bch" "GF_T b' = GF_T bch"
    by blast
  have mt: "0 < GF_M bch * GF_T bch"
    by (rule init_bch_ecc_macros(2) [OF init])
  have W': "BCH_ECC_WORDS b' = W" "pad_bits b' = pad_bits bch"
    by (simp_all add: W_def pad_bits_def BCH_ECC_WORDS_def BCH_ECC_BYTES_def f)
  have Wp: "0 < W"
    using ecc_words_pos [OF mt] by (simp add: W_def)
  define row where "row = (\<lambda>b i. mod8_row b' (genpoly_words c (ecc_bits bch + 1)) b i)"
  have rows: "length (row b i) = W \<and> take_bit (pad_bits bch) (row b i ! (W - 1)) = 0" for b i
    using mod8_rows_low [of "ecc_bits bch" b' c b i] init_bch_ecc_bits_le [OF init] mt
    by (simp add: row_def f W')
  have inner: "\<forall>x\<in>set [0..<256]. length (row b x) = W" for b
    using rows by simp
  have outer: "\<forall>x\<in>set [0..<4]. length (concat (map (row x) [0..<256])) = 256 * W"
    using concat_map_rows(1) [OF inner] by simp
  have "mod8_tab bch ! (b * (256 * W) + (i * W + (W - 1))) =
        concat (map (row ([0..<4] ! b)) [0..<256]) ! (i * W + (W - 1))"
    unfolding tab row_def [symmetric]
  proof (rule concat_map_rows(2) [OF outer])
    show "b < length [0..<4]"
      using b by simp
    have "i * W + (W - 1) < i * W + W"
      using Wp by simp
    also have "\<dots> = Suc i * W"
      by simp
    also have "\<dots> \<le> 256 * W"
      using i by (intro mult_le_mono1) simp
    finally show "i * W + (W - 1) < 256 * W" .
  qed
  also have "\<dots> = row b ([0..<256] ! i) ! (W - 1)"
    using concat_map_rows(2) [OF inner, of i "W - 1" b] b i Wp by simp
  also have "\<dots> = row b i ! (W - 1)"
    using i by simp
  finally show ?thesis
    using rows [of b i] by (simp add: W_def)
qed

lemma unat_and_ff: "unat (w AND 0xff :: u32) < 256"
proof -
  have "w AND 0xff = take_bit 8 w"
    by (simp add: take_bit_eq_mask mask_eq_exp_minus_1)
  then have "unat (w AND 0xff) = take_bit 8 (unat w)"
    by (simp add: unsigned_take_bit_eq)
  also have "\<dots> < 2 ^ 8"
    by (rule take_bit_nat_less_exp)
  finally show ?thesis by simp
qed

lemma parity_inv_zero:
  "0 < GF_M bch * GF_T bch \<Longrightarrow> parity_inv bch (replicate (BCH_ECC_WORDS bch) 0)"
  using ecc_words_pos [of bch] by (simp add: parity_inv_def)

lemma encode_byte_inv:
  assumes init: "init_bch m t p = Some bch" and inv: "parity_inv bch ecc"
  shows "parity_inv bch (encode_byte bch byte ecc)"
proof -
  define W where "W = BCH_ECC_WORDS bch"
  define l where "l = W - 1"
  define x where "x = unat ((drop_bit 24 (ecc ! 0) XOR ucast byte) AND 0xff)"
  have mt: "0 < GF_M bch * GF_T bch"
    by (rule init_bch_ecc_macros(2) [OF init])
  have Wp: "0 < W"
    using ecc_words_pos [OF mt] by (simp add: W_def)
  then have W: "l + 1 = W"
    by (simp add: l_def)
  have len: "length ecc = W" and low: "take_bit (pad_bits bch) (ecc ! l) = 0"
    using inv by (simp_all add: parity_inv_def W_def l_def)
  have x: "x < 256"
    unfolding x_def by (rule unat_and_ff)
  have t: "take_bit (pad_bits bch) (mod8_tab bch ! ((l + 1) * x + l)) = 0"
    using init_bch_mod8_low [OF init, of 0 x] x W by (simp add: W_def [symmetric] l_def ac_simps)
  have s: "take_bit (pad_bits bch) (push_bit 8 (ecc ! l)) = 0"
    by (rule take_bit_push_bit_zero) (rule take_bit_zero_mono [OF low], simp)
  define f where "f = (\<lambda>i. if i < l
                   then (push_bit 8 (ecc ! i) OR drop_bit 24 (ecc ! (i + 1)))
                        XOR mod8_tab bch ! ((l + 1) * x + i)
                   else push_bit 8 (ecc ! l) XOR mod8_tab bch ! ((l + 1) * x + l))"
  have e: "encode_byte bch byte ecc = map f [0..<l + 1] @ drop (l + 1) ecc"
    unfolding encode_byte_def Let_def f_def l_def W_def x_def by (rule refl)
  have "length (encode_byte bch byte ecc) = W"
    unfolding e using len W by simp
  moreover have "encode_byte bch byte ecc ! l = f l"
    unfolding e by (simp add: nth_append del: upt_Suc)
  moreover have "take_bit (pad_bits bch) (f l) = 0"
    unfolding f_def using s t by (simp add: take_bit_xor)
  ultimately show ?thesis
    by (simp add: parity_inv_def W_def [symmetric] l_def)
qed

lemma encode_bch_unaligned_inv:
  assumes "init_bch m t p = Some bch" and "parity_inv bch ecc"
  shows "parity_inv bch (encode_bch_unaligned bch data ecc)"
  unfolding encode_bch_unaligned_def using assms(2)
  by (induction data arbitrary: ecc) (simp_all add: encode_byte_inv [OF assms(1)])

lemma encode_word_inv:
  assumes init: "init_bch m t p = Some bch" and inv: "parity_inv bch r"
  shows "parity_inv bch (encode_word bch pdata i r)"
proof -
  define W where "W = BCH_ECC_WORDS bch"
  define l where "l = W - 1"
  define w where "w = r ! 0 XOR be32 (pdata ! (4 * i)) (pdata ! (4 * i + 1)) (pdata ! (4 * i + 2))
                         (pdata ! (4 * i + 3))"
  define x0 where "x0 = unat (w AND 0xff)"
  define x1 where "x1 = unat (drop_bit 8 w AND 0xff)"
  define x2 where "x2 = unat (drop_bit 16 w AND 0xff)"
  define x3 where "x3 = unat (drop_bit 24 w AND 0xff)"
  have mt: "0 < GF_M bch * GF_T bch"
    by (rule init_bch_ecc_macros(2) [OF init])
  have Wp: "0 < W"
    using ecc_words_pos [OF mt] by (simp add: W_def)
  then have W: "l + 1 = W"
    by (simp add: l_def)
  have len: "length r = W"
    using inv by (simp add: parity_inv_def W_def)
  have x: "x0 < 256" "x1 < 256" "x2 < 256" "x3 < 256"
    unfolding x0_def x1_def x2_def x3_def by (rule unat_and_ff)+
  have t0: "take_bit (pad_bits bch) (mod8_tab bch ! ((l + 1) * x0 + l)) = 0"
    using init_bch_mod8_low [OF init, of 0 x0] x(1) unfolding W_def [symmetric] W [symmetric]
    by (simp add: mult.commute)
  have t1: "take_bit (pad_bits bch) (mod8_tab bch ! (256 * (l + 1) + (l + 1) * x1 + l)) = 0"
  proof -
    have "256 * (l + 1) + (l + 1) * x1 + l = 1 * (256 * W) + (x1 * W + (W - 1))"
      unfolding W [symmetric] by simp
    then show ?thesis
      using init_bch_mod8_low [OF init, of 1 x1] x(2) unfolding W_def [symmetric] by simp
  qed
  have t2: "take_bit (pad_bits bch) (mod8_tab bch ! (2 * 256 * (l + 1) + (l + 1) * x2 + l)) = 0"
  proof -
    have "2 * 256 * (l + 1) + (l + 1) * x2 + l = 2 * (256 * W) + (x2 * W + (W - 1))"
      unfolding W [symmetric] by simp
    then show ?thesis
      using init_bch_mod8_low [OF init, of 2 x2] x(3) unfolding W_def [symmetric] by simp
  qed
  have t3: "take_bit (pad_bits bch) (mod8_tab bch ! (3 * 256 * (l + 1) + (l + 1) * x3 + l)) = 0"
  proof -
    have "3 * 256 * (l + 1) + (l + 1) * x3 + l = 3 * (256 * W) + (x3 * W + (W - 1))"
      unfolding W [symmetric] by simp
    then show ?thesis
      using init_bch_mod8_low [OF init, of 3 x3] x(4) unfolding W_def [symmetric] by simp
  qed
  define f where "f = (\<lambda>i. if i < l
                   then r ! (i + 1) XOR mod8_tab bch ! ((l + 1) * x0 + i)
                        XOR mod8_tab bch ! (256 * (l + 1) + (l + 1) * x1 + i)
                        XOR mod8_tab bch ! (2 * 256 * (l + 1) + (l + 1) * x2 + i)
                        XOR mod8_tab bch ! (3 * 256 * (l + 1) + (l + 1) * x3 + i)
                   else mod8_tab bch ! ((l + 1) * x0 + l)
                        XOR mod8_tab bch ! (256 * (l + 1) + (l + 1) * x1 + l)
                        XOR mod8_tab bch ! (2 * 256 * (l + 1) + (l + 1) * x2 + l)
                        XOR mod8_tab bch ! (3 * 256 * (l + 1) + (l + 1) * x3 + l))"
  have e: "encode_word bch pdata i r = map f [0..<l + 1] @ drop (l + 1) r"
    unfolding encode_word_def Let_def f_def l_def W_def x0_def x1_def x2_def x3_def w_def
    by (rule refl)
  have "length (encode_word bch pdata i r) = W"
    unfolding e using len W by simp
  moreover have "encode_word bch pdata i r ! l = f l"
    unfolding e by (simp add: nth_append del: upt_Suc)
  moreover have "take_bit (pad_bits bch) (f l) = 0"
    unfolding f_def using t0 t1 t2 t3 by (simp add: take_bit_xor)
  ultimately show ?thesis
    by (simp add: parity_inv_def W_def [symmetric] l_def)
qed

lemma encode_words_inv:
  assumes init: "init_bch m t p = Some bch" and inv: "parity_inv bch buf"
  shows "parity_inv bch (encode_words bch addr data len buf)"
proof -
  have w: "parity_inv bch (fold (encode_word bch d) is r)" if "parity_inv bch r" for d "is" r
    using that by (induction "is" arbitrary: r) (simp_all add: encode_word_inv [OF init])
  have u: "parity_inv bch (encode_bch_unaligned bch d r)" if "parity_inv bch r" for d r
    using that by (rule encode_bch_unaligned_inv [OF init])
  have a: "parity_inv bch (if c then encode_bch_unaligned bch d buf else buf)" for c d
    using u [OF inv] inv by simp
  have b: "parity_inv bch (if c' then encode_bch_unaligned bch d''
                 (fold (encode_word bch d') is (if c then encode_bch_unaligned bch d buf else buf))
               else fold (encode_word bch d') is (if c then encode_bch_unaligned bch d buf else buf))"
    for c c' d d' d'' "is"
    using u [OF w [OF a]] w [OF a] by simp
  show ?thesis
    unfolding encode_words_def Let_def by (rule b)
qed

section \<open>The scratch buffers are not read\<close>

lemma ecc_buf_frame:
  "BCH_ECC_WORDS (bch\<lparr>ecc_buf := x\<rparr>) = BCH_ECC_WORDS bch"
  "BCH_ECC_BYTES (bch\<lparr>ecc_buf := x\<rparr>) = BCH_ECC_BYTES bch"
  "encode_byte (bch\<lparr>ecc_buf := x\<rparr>) = encode_byte bch"
  "encode_word (bch\<lparr>ecc_buf := x\<rparr>) = encode_word bch"
  "load_ecc8 (bch\<lparr>ecc_buf := x\<rparr>) = load_ecc8 bch"
  "xor_words (bch\<lparr>ecc_buf := x\<rparr>) = xor_words bch"
  "or_words (bch\<lparr>ecc_buf := x\<rparr>) = or_words bch"
  by (simp_all add: fun_eq_iff BCH_ECC_WORDS_def BCH_ECC_BYTES_def encode_byte_def
      encode_word_def load_ecc8_def xor_words_def or_words_def Let_def)

lemma encode_bch_unaligned_frame:
  "encode_bch_unaligned (bch\<lparr>ecc_buf := x\<rparr>) = encode_bch_unaligned bch"
  by (simp add: fun_eq_iff encode_bch_unaligned_def ecc_buf_frame)

lemma encode_words_frame: "encode_words (bch\<lparr>ecc_buf := x\<rparr>) = encode_words bch"
  by (simp add: fun_eq_iff encode_words_def encode_bch_unaligned_frame ecc_buf_frame Let_def)

lemma encode_bch_parity:
  "encode_bch bch addr data len None =
     (bch\<lparr>ecc_buf := encode_words bch addr data len (replicate (BCH_ECC_WORDS bch - 1 + 1) 0)\<rparr>,
      None)"
  "encode_bch bch addr data len (Some e) =
     (bch\<lparr>ecc_buf := encode_words bch addr data len (load_ecc8 bch e)\<rparr>,
      Some (store_ecc8 bch e (encode_words bch addr data len (load_ecc8 bch e))))"
  by (simp_all add: encode_bch_def Let_def)

text \<open>The parity words of a data block, computed from a zeroed buffer.\<close>

definition parity_words :: "bch_control \<Rightarrow> nat \<Rightarrow> u8 list \<Rightarrow> nat \<Rightarrow> u32 list" where
  "parity_words bch addr data len =
     encode_words bch addr data len (replicate (BCH_ECC_WORDS bch) 0)"

lemma parity_words_inv:
  assumes "init_bch m t p = Some bch"
  shows "parity_inv bch (parity_words bch addr data len)"
  unfolding parity_words_def
  by (rule encode_words_inv [OF assms parity_inv_zero [OF init_bch_ecc_macros(2) [OF assms]]])

lemma load_store_parity:
  assumes "init_bch m t p = Some bch"
  shows "load_ecc8 bch (store_ecc8 bch dst (parity_words bch addr data len)) =
         parity_words bch addr data len"
  using parity_words_inv [OF assms, of addr data len]
  by (intro load_store_ecc8 [OF init_bch_ecc_macros(2) [OF assms]])
    (simp_all add: parity_inv_def pad_bits_def)

lemma encode_bch_zeroed:
  assumes "init_bch m t p = Some bch"
  shows "encode_bch bch addr data len (Some (replicate (ecc_bytes bch) 0)) =
     (bch\<lparr>ecc_buf := parity_words bch addr data len\<rparr>,
      Some (store_ecc8 bch (replicate (ecc_bytes bch) 0) (parity_words bch addr data len)))"
proof -
  note mc = init_bch_ecc_macros [OF assms]
  have "load_ecc8 bch (replicate (ecc_bytes bch) 0) = replicate (BCH_ECC_WORDS bch) 0"
    by (rule load_ecc8_zero [OF mc(2)]) (simp add: mc(1))
  then show ?thesis
    by (simp add: encode_bch_parity parity_words_def)
qed

lemma decode_syndromes_clean:
  assumes init: "init_bch m t p = Some bch"
    and ecc: "ecc = store_ecc8 bch dst (parity_words bch addr data len)"
  shows "snd (decode_syndromes (bch\<lparr>ecc_buf := x\<rparr>) addr (Some data) len (Some ecc) None) = Inl 0"
proof -
  have W: "BCH_ECC_WORDS bch - 1 + 1 = BCH_ECC_WORDS bch"
    using ecc_words_pos [OF init_bch_ecc_macros(2) [OF init]] by simp
  have l: "load_ecc8 bch ecc = parity_words bch addr data len"
    unfolding ecc by (rule load_store_parity [OF init])
  have z: "or_words bch (xor_words bch (parity_words bch addr data len)
             (parity_words bch addr data len)) = 0"
    by (simp add: or_words_zero_iff xor_words_nth)
  have p: "encode_words bch addr data len (replicate (BCH_ECC_WORDS bch) 0) =
           parity_words bch addr data len"
    by (simp add: parity_words_def)
  show ?thesis
    unfolding decode_syndromes_def Let_def option.case option.sel encode_bch_parity fst_conv
      bch_control.simps ecc_buf_frame encode_words_frame W p l
    using z by simp
qed


lemma bch51_fields: "ecc_bytes bch51 = 1" "GF_N bch51 = 31" "ecc_bits bch51 = 5"
  by (simp_all add: bch51_def)


section \<open>Decoding a zero difference\<close>









section \<open>The four call shapes of the decoder\<close>











section \<open>A flipped padding bit\<close>

text \<open>
  The codec \<^verbatim>\<open>init_bch (5, 1, 0)\<close> has \<open>ecc_bits = 5\<close> and one ecc byte, whose three low bits are
  padding. For no data, the ecc is \<open>0\<close>; when the lowest bit of the received ecc byte is
  flipped, \<^verbatim>\<open>compute_syndromes\<close> masks it away and \<^verbatim>\<open>decode_bch\<close> reports no error.
\<close>

lemma decode_bch_flipped_padding_bit:
  "snd (decode_bch bch51 0 (Some []) 0 (Some [0x01]) None None [0]) = (0, [0])"
  by code_simp

section \<open>Decoding what was encoded\<close>

text \<open>
  C2: for every codec built by \<^verbatim>\<open>init_bch\<close> and every data block whose length \<open>len\<close> does not
  exceed \<open>ceil((n - ecc_bits) / 8)\<close>, the bound that \<^verbatim>\<open>decode_bch\<close> accepts: after \<^verbatim>\<open>encode_bch\<close>
  has computed the ecc of the block into a zeroed buffer of \<open>ecc_bytes\<close> bytes,
  \<^verbatim>\<open>decode_bch (data, len, ecc, NULL, NULL)\<close> on the same data and that ecc returns \<open>0\<close> and
  leaves \<^verbatim>\<open>errloc\<close> as it was.
\<close>

theorem decode_after_encode:
  assumes "init_bch m t p = Some bch"
    and "len \<le> DIV_ROUND_UP (GF_N bch - ecc_bits bch) 8"
    and "encode_bch bch addr data len (Some (replicate (ecc_bytes bch) 0)) = (bch1, Some ecc)"
  shows "snd (decode_bch bch1 addr (Some data) len (Some ecc) None None errloc) = (0, errloc)"
proof -
  have b: "bch1 = bch\<lparr>ecc_buf := parity_words bch addr data len\<rparr>"
    and e: "ecc = store_ecc8 bch (replicate (ecc_bytes bch) 0) (parity_words bch addr data len)"
    using assms(3) unfolding encode_bch_zeroed [OF assms(1)] by simp_all
  obtain b2 where d: "decode_syndromes bch1 addr (Some data) len (Some ecc) None = (b2, Inl 0)"
    using decode_syndromes_clean [OF assms(1) e, of "parity_words bch addr data len"]
    unfolding b [symmetric]
    by (cases "decode_syndromes bch1 addr (Some data) len (Some ecc) None") simp
  have "\<not> (GF_N bch1 - ecc_bits bch1 + 7) div 8 < len"
    using assms(2) by (simp add: b DIV_ROUND_UP_def)
  then show ?thesis
    by (simp add: decode_bch_def d)
qed

theorem decode_after_encode_witness:
  "init_bch 5 1 0 = Some bch51 \<and> 2 \<le> DIV_ROUND_UP (GF_N bch51 - ecc_bits bch51) 8 \<and>
   snd (decode_bch (fst (encode_bch bch51 1 [0x12, 0x34] 2 (Some [0]))) 1 (Some [0x12, 0x34]) 2
          (snd (encode_bch bch51 1 [0x12, 0x34] 2 (Some [0]))) None None [7]) = (0, [7])"
proof -
  have c: "2 \<le> DIV_ROUND_UP (GF_N bch51 - ecc_bits bch51) 8"
    by (simp add: bch51_fields DIV_ROUND_UP_def)
  have z: "replicate (ecc_bytes bch51) 0 = [0::u8]"
    by (simp add: bch51_fields)
  have e: "encode_bch bch51 1 [0x12, 0x34] 2 (Some (replicate (ecc_bytes bch51) 0)) =
      (fst (encode_bch bch51 1 [0x12, 0x34] 2 (Some [0])),
       Some (store_ecc8 bch51 [0] (encode_words bch51 1 [0x12, 0x34] 2 (load_ecc8 bch51 [0]))))"
    unfolding z by (simp add: encode_bch_parity)
  have s: "snd (encode_bch bch51 1 [0x12, 0x34] 2 (Some [0])) =
      Some (store_ecc8 bch51 [0] (encode_words bch51 1 [0x12, 0x34] 2 (load_ecc8 bch51 [0])))"
    by (simp add: encode_bch_parity)
  show ?thesis
    using decode_after_encode [OF init_bch_5_1_0 c e, of "[7]"] init_bch_5_1_0 c
    unfolding s by simp
qed


section \<open>Equivalence of the call shapes\<close>



section \<open>The field tables\<close>

text \<open>
  C4: the codec that \<^verbatim>\<open>init_bch (5, 1, 0x20)\<close> returns (the polynomial \<open>X ^ 5\<close> is accepted: \<open>x\<close>
  reaches \<open>0\<close> and never returns to \<open>1\<close>) has \<^verbatim>\<open>a_pow_tab[5] = 0\<close>, so
  \<^verbatim>\<open>a_log_tab[a_pow_tab[5]] = 0\<close>, not \<open>5\<close>, and \<^verbatim>\<open>a_pow_tab[a_log_tab[3]] = 1\<close>, not \<open>3\<close>.
\<close>

theorem init_bch_0x20_tables:
  "map_option (\<lambda>b. (GF_N b, a_pow_tab b ! 5, a_log_tab b ! (a_pow_tab b ! 5),
                    a_pow_tab b ! (a_log_tab b ! 3))) (init_bch 5 1 0x20) = Some (31, 0, 0, 1)"
  unfolding init_bch_5_1_0x20
  by (simp add: build_mod8_tables_def alloc_bch_tables pw20_upd tables_0x20)

section \<open>Size of the parity\<close>

text \<open>
  C5: for every codec built by \<^verbatim>\<open>init_bch (m, t)\<close>, \<open>ecc_bits\<close> is the degree of the generator
  polynomial and is at most \<open>m * t\<close>, and \<open>ecc_bytes\<close> is \<open>ceil(m * t / 8)\<close>, which is at least
  \<open>ceil(ecc_bits / 8)\<close>.
\<close>

theorem init_bch_ecc_size:
  assumes "init_bch m t p = Some bch"
  shows "ecc_bits bch = poly_deg (generator_poly bch) \<and>
         ecc_bits bch \<le> nat (m * t) \<and>
         ecc_bytes bch = DIV_ROUND_UP (nat (m * t)) 8 \<and>
         DIV_ROUND_UP (ecc_bits bch) 8 \<le> ecc_bytes bch"
proof -
  from init_bch_SomeD [OF assms] have v: "5 \<le> m" "1 \<le> t"
    by blast+
  note f = init_bch_fields [OF assms]
  have mt: "nat (m * t) = GF_M bch * GF_T bch"
    using v by (simp add: f nat_mult_distrib)
  have g: "ecc_bits bch = poly_deg (generator_poly bch)"
    by (rule init_bch_generator [OF assms])
  then have le: "ecc_bits bch \<le> nat (m * t)"
    using generator_poly_deg [of bch] mt by simp
  then have "DIV_ROUND_UP (ecc_bits bch) 8 \<le> DIV_ROUND_UP (nat (m * t)) 8"
    unfolding DIV_ROUND_UP_def by (intro div_le_mono) simp
  then show ?thesis
    using g le f(4) by simp
qed

theorem init_bch_ecc_size_witness:
  "init_bch 5 1 0 = Some bch51 \<and> ecc_bits bch51 \<le> nat (5 * 1) \<and> ecc_bytes bch51 = 1"
  using init_bch_ecc_size [OF init_bch_5_1_0] init_bch_5_1_0
  by (simp add: DIV_ROUND_UP_def)

theorem init_bch_ecc_size_counterexample:
  "map_option ecc_bits (init_bch 5 5 0) = Some 20 \<and>
   map_option ecc_bytes (init_bch 5 5 0) = Some 4 \<and>
   DIV_ROUND_UP 20 8 = 3"
  using init_bch_5_5_0 by (simp add: DIV_ROUND_UP_def)

section \<open>Roots of a polynomial of degree 1\<close>

text \<open>
  C6: on a codec built by \<^verbatim>\<open>init_bch\<close>, for a polynomial \<open>c1 X + c0\<close> of degree 1 whose
  coefficients are field elements and \<open>c0 \<noteq> 0\<close>, the root finder returns exactly one value,
  and it is \<open>(log c1 - log c0) mod n\<close>.
\<close>

theorem find_poly_roots_deg1:
  assumes "init_bch m t p = Some bch"
    and "poly_deg poly = 1"
    and "poly_c poly ! 0 = c0" and "poly_c poly ! 1 = c1"
    and "c0 \<noteq> 0" and "c0 \<le> GF_N bch" and "c1 \<le> GF_N bch"
  shows "find_poly_roots bch k poly =
           [nat ((int (a_log_tab bch ! c1) - int (a_log_tab bch ! c0)) mod int (GF_N bch))]"
proof -
  define n where "n = GF_N bch"
  define l0 where "l0 = a_log_tab bch ! c0"
  define l1 where "l1 = a_log_tab bch ! c1"
  have b: "l0 < n" "l1 < n"
    using init_bch_log_bound [OF assms(1)] assms(6,7) by (simp_all add: l0_def l1_def n_def)
  have "mod_s bch (n - l0 + l1) = nat ((int l1 - int l0) mod int n)"
  proof (cases "l0 \<le> l1")
    case True
    then have "(int l1 - int l0) mod int n = int (l1 - l0)"
      using b by (simp add: of_nat_diff)
    moreover have "mod_s bch (n - l0 + l1) = l1 - l0"
      using True b by (simp add: mod_s_def n_def [symmetric])
    ultimately show ?thesis
      by simp
  next
    case False
    then have A: "int l1 - int l0 + int n = int (n - l0 + l1)"
      using b by (simp add: of_nat_diff)
    have B: "(int l1 - int l0 + int n) mod int n = int l1 - int l0 + int n"
      using False b by (intro mod_pos_pos_trivial) simp_all
    have C: "(int l1 - int l0) mod int n = (int l1 - int l0 + int n) mod int n"
      by simp
    have D: "mod_s bch (n - l0 + l1) = n - l0 + l1"
      using False b by (simp add: mod_s_def n_def [symmetric])
    have "nat ((int l1 - int l0) mod int n) = nat (int l1 - int l0 + int n)"
      by (simp only: C B)
    also have "\<dots> = n - l0 + l1"
      by (simp only: A nat_int)
    finally show ?thesis
      by (simp only: D)
  qed
  then show ?thesis
    using assms(2-5)
    by (subst find_poly_roots.simps) (simp add: find_poly_deg1_roots_def n_def l0_def l1_def)
qed




theorem find_poly_roots_deg1_witness:
  "init_bch 5 1 0 = Some bch51 \<and> poly_deg \<lparr>poly_deg = 1, poly_c = [1, 5, 0, 0, 0]\<rparr> = 1 \<and>
   (1::nat) \<noteq> 0 \<and> 1 \<le> GF_N bch51 \<and> 5 \<le> GF_N bch51 \<and>
   find_poly_roots bch51 1 \<lparr>poly_deg = 1, poly_c = [1, 5, 0, 0, 0]\<rparr> = [5]"
proof -
  have "find_poly_roots bch51 1 \<lparr>poly_deg = 1, poly_c = [1, 5, 0, 0, 0]\<rparr> =
          [nat ((int (a_log_tab bch51 ! 5) - int (a_log_tab bch51 ! 1)) mod int (GF_N bch51))]"
    by (rule find_poly_roots_deg1 [OF init_bch_5_1_0]) (simp_all add: bch51_logs)
  then have "find_poly_roots bch51 1 \<lparr>poly_deg = 1, poly_c = [1, 5, 0, 0, 0]\<rparr> = [5]"
    unfolding bch51_logs by simp
  then show ?thesis
    using init_bch_5_1_0 by (simp add: bch51_logs)
qed

theorem find_poly_roots_deg1_counterexample:
  "init_bch 5 1 0 = Some bch51 \<and>
   find_poly_roots bch51 1 \<lparr>poly_deg = 1, poly_c = [1, 5, 0, 0, 0]\<rparr> = [5] \<and>
   nat ((int (a_log_tab bch51 ! 1) - int (a_log_tab bch51 ! 5)) mod int (GF_N bch51)) = 26"
  unfolding bch51_logs
  using init_bch_5_1_0 bch51_root_example by simp

section \<open>A polynomial that is accepted although it is not primitive\<close>

text \<open>
  C7: \<^verbatim>\<open>init_bch (5, 1, 0x20)\<close> does not return null. The parameters are valid, the polynomial
  \<open>X ^ 5\<close> has degree \<open>5\<close>, and \<open>x\<close> runs through \<open>1, 2, 4, 8, 16, 0, 0, ...\<close> in \<^verbatim>\<open>build_gf_tables\<close>
  without returning to \<open>1\<close>, so the polynomial, which is not primitive, is not rejected; the
  codec returned has a power table that is \<open>0\<close> from index \<open>5\<close> on.
\<close>

theorem init_bch_0x20_returns_codec:
  "deg 0x20 = 5 \<and>
   map_option (\<lambda>b. (GF_M b, GF_T b, take 8 (a_pow_tab b))) (init_bch 5 1 0x20) =
     Some (5, 1, [1, 2, 4, 8, 16, 0, 0, 0])"
proof -
  have "take 8 pw20 = [1, 2, 4, 8, 16, 0, 0, 0]"
    by code_simp
  then show ?thesis
    unfolding init_bch_5_1_0x20
    by (simp add: deg_0x20 build_mod8_tables_def alloc_bch_def Let_def pw20_upd)
qed

section \<open>Return codes of decode_bch\<close>

text \<open>
  C8: \<^verbatim>\<open>decode_bch\<close> returns \<open>-11\<close> and leaves the codec and \<^verbatim>\<open>errloc\<close> as they were whenever
  \<open>len\<close> exceeds \<open>ceil((n - ecc_bits) / 8)\<close>; its return value is always non-negative, \<open>-11\<close>
  or \<open>-13\<close>; and whenever it gets as far as the syndromes \<open>sy\<close> (given by the caller or computed
  from the ecc), it returns \<open>-13\<close> if the Berlekamp-Massey step reports a degree overflow
  (\<open>err < 0\<close>), if the number of roots found differs from the degree \<open>err\<close>, or if a root is at
  or beyond \<open>8 * len + ecc_bits\<close>, and returns the degree \<open>err\<close> otherwise.
\<close>

theorem decode_bch_return_codes:
  fixes bch :: bch_control
  shows
  "(DIV_ROUND_UP (GF_N bch - ecc_bits bch) 8 < len \<longrightarrow>
      decode_bch bch addr data len recv calc syn_in errloc = (bch, - 11, errloc)) \<and>
   (0 \<le> fst (snd (decode_bch bch addr data len recv calc syn_in errloc)) \<or>
    fst (snd (decode_bch bch addr data len recv calc syn_in errloc)) = - 11 \<or>
    fst (snd (decode_bch bch addr data len recv calc syn_in errloc)) = - 13) \<and>
   (len \<le> DIV_ROUND_UP (GF_N bch - ecc_bits bch) 8 \<and>
    (syn_in = Some sy \<or>
     syn_in = None \<and> snd (decode_syndromes bch addr data len recv calc) = Inr sy) \<and>
    compute_error_locator_polynomial bch sy = (err, elp) \<longrightarrow>
      fst (snd (decode_bch bch addr data len recv calc syn_in errloc)) =
        (if err < 0 \<or>
            0 < err \<and> (int (length (find_poly_roots bch 1 elp)) \<noteq> err \<or>
                       (\<exists>e\<in>set (find_poly_roots bch 1 elp). len * 8 + ecc_bits bch \<le> e))
         then - 13 else err))"
proof (intro conjI impI)
  assume "DIV_ROUND_UP (GF_N bch - ecc_bits bch) 8 < len"
  then show "decode_bch bch addr data len recv calc syn_in errloc = (bch, - 11, errloc)"
    by (simp add: decode_bch_def ceil_div8)
next
  let ?r = "fst (snd (decode_bch bch addr data len recv calc syn_in errloc))"
  show "0 \<le> ?r \<or> ?r = - 11 \<or> ?r = - 13"
  proof (cases "len > (GF_N bch - ecc_bits bch + 7) div 8")
    case True
    then show ?thesis by (simp add: decode_bch_def)
  next
    case False
    show ?thesis
    proof (cases syn_in)
      case (Some sy')
      then show ?thesis
        using False locate_errors_codes [of bch len sy' errloc]
        by (auto simp: decode_bch_def split: prod.splits)
    next
      case None
      obtain b' x where d: "decode_syndromes bch addr data len recv calc = (b', x)"
        by (cases "decode_syndromes bch addr data len recv calc")
      show ?thesis
      proof (cases x)
        case (Inl r)
        then show ?thesis
          using None False d decode_syndromes_codes [of bch addr data len recv calc r]
          by (auto simp: decode_bch_def)
      next
        case (Inr sy')
        then show ?thesis
          using None False d locate_errors_codes [of bch len sy' errloc]
          by (auto simp: decode_bch_def split: prod.splits)
      qed
    qed
  qed
next
  assume a: "len \<le> DIV_ROUND_UP (GF_N bch - ecc_bits bch) 8 \<and>
    (syn_in = Some sy \<or>
     syn_in = None \<and> snd (decode_syndromes bch addr data len recv calc) = Inr sy) \<and>
    compute_error_locator_polynomial bch sy = (err, elp)"
  then have r: "fst (snd (decode_bch bch addr data len recv calc syn_in errloc)) =
      fst (locate_errors bch len sy errloc)"
    by (auto simp: decode_bch_def ceil_div8 split: prod.splits sum.splits)
  show "fst (snd (decode_bch bch addr data len recv calc syn_in errloc)) =
        (if err < 0 \<or>
            0 < err \<and> (int (length (find_poly_roots bch 1 elp)) \<noteq> err \<or>
                       (\<exists>e\<in>set (find_poly_roots bch 1 elp). len * 8 + ecc_bits bch \<le> e))
         then - 13 else err)"
    unfolding r
    using a locate_errors_fail [of bch sy err elp len errloc]
      locate_errors_success [of bch sy err elp len errloc]
    by (simp split: if_splits)
qed

lemma bch51_capacity: "DIV_ROUND_UP (GF_N bch51 - ecc_bits bch51) 8 = 4"
  by code_simp

lemma bch51_ecc_bits: "ecc_bits bch51 = 5"
  by (simp add: bch51_def)

lemma bch51_syndromes_0x28:
  "snd (decode_syndromes bch51 0 (Some []) 0 (Some [0x28]) None) = Inr [5, 17]"
  by code_simp

lemma bch51_elp_5_17:
  "compute_error_locator_polynomial bch51 [5, 17] = (1, \<lparr>poly_deg = 1, poly_c = [1, 5, 0, 0, 0]\<rparr>)"
  by code_simp

lemma bch51_roots_5:
  "find_poly_roots bch51 1 \<lparr>poly_deg = 1, poly_c = [1, 5, 0, 0, 0]\<rparr> = [5]"
  by code_simp

theorem decode_bch_return_codes_witness:
  "DIV_ROUND_UP (GF_N bch51 - ecc_bits bch51) 8 < 5 \<and>
   decode_bch bch51 0 None 5 None None (Some [5, 17]) [0] = (bch51, - 11, [0]) \<and>
   0 \<le> DIV_ROUND_UP (GF_N bch51 - ecc_bits bch51) 8 \<and>
   snd (decode_syndromes bch51 0 (Some []) 0 (Some [0x28]) None) = Inr [5, 17] \<and>
   compute_error_locator_polynomial bch51 [5, 17] = (1, \<lparr>poly_deg = 1, poly_c = [1, 5, 0, 0, 0]\<rparr>) \<and>
   fst (snd (decode_bch bch51 0 (Some []) 0 (Some [0x28]) None None [0])) = - 13"
proof -
  have a: "decode_bch bch51 0 None 5 None None (Some [5, 17]) [0] = (bch51, - 11, [0])"
    using decode_bch_return_codes [of bch51 5 0 None None None "Some [5, 17]" "[0]",
        THEN conjunct1]
    unfolding bch51_capacity by simp
  have b: "fst (snd (decode_bch bch51 0 (Some []) 0 (Some [0x28]) None None [0])) = - 13"
    using decode_bch_return_codes [of bch51 0 0 "Some []" "Some [0x28]" None None "[0]"
        "[5, 17]" 1 "\<lparr>poly_deg = 1, poly_c = [1, 5, 0, 0, 0]\<rparr>", THEN conjunct2, THEN conjunct2]
    unfolding bch51_capacity bch51_syndromes_0x28 bch51_elp_5_17 bch51_roots_5 bch51_ecc_bits
    by simp
  show ?thesis
    unfolding bch51_capacity
    using a b bch51_syndromes_0x28 bch51_elp_5_17 by simp
qed

section \<open>Encoding no data\<close>

text \<open>
  C9: with \<open>len = 0\<close> and a non-null \<open>ecc\<close> buffer (of at least \<open>ecc_bytes\<close> bytes),
  \<^verbatim>\<open>encode_bch\<close> leaves in the buffer exactly the bytes it held before the call, for every
  codec built by \<^verbatim>\<open>init_bch\<close> and every content of the buffer.
\<close>

theorem encode_bch_len0_identity:
  assumes "init_bch m t p = Some bch" and "ecc_bytes bch \<le> length ecc"
  shows "snd (encode_bch bch addr data 0 (Some ecc)) = Some ecc"
  using store_load_ecc8 [of bch ecc] init_bch_ecc_macros [OF assms(1)] assms(2)
  by (simp add: encode_bch_def encode_words_len0)

theorem encode_bch_len0_identity_witness:
  "init_bch 5 1 0 = Some bch51 \<and> ecc_bytes bch51 \<le> length [0xA5 :: u8] \<and>
   snd (encode_bch bch51 0 [] 0 (Some [0xA5])) = Some [0xA5]"
  using encode_bch_len0_identity [OF init_bch_5_1_0, of "[0xA5]" 0 "[]"] init_bch_5_1_0
  by (simp add: bch51_def)


section \<open>Applying the error locations\<close>

text \<open>
  C10: for locations that fit an \<^verbatim>\<open>int\<close> (every location that \<^verbatim>\<open>decode_bch\<close> or
  \<^verbatim>\<open>decodebits_bch\<close> reports does), \<^verbatim>\<open>correct_bch\<close> toggles bit \<open>errloc[i] mod 8\<close> of byte
  \<open>errloc[i] div 8\<close> for each \<open>i < nerr\<close> with \<open>errloc[i] < 8 * len\<close>, writes nothing for the other
  entries, and leaves every byte that no such entry names as it was; \<^verbatim>\<open>correctbits_bch\<close>
  toggles the bit-byte \<open>errloc[i]\<close> for each entry below \<open>n - ecc_bits\<close> and leaves all other
  bit-bytes as they were. Neither writes outside its array.
\<close>

theorem correct_bch_toggles:
  assumes "\<forall>e\<in>set (take (nat nerr) errloc). e < 2 ^ 31"
    and "len \<le> length data"
    and "init_bch m t p = Some bch"
    and "GF_N bch - ecc_bits bch \<le> length databits"
  shows
    "correct_bch bch data len errloc nerr =
       Inr (fold (toggle_data_bit len) (take (nat nerr) errloc) data) \<and>
     (\<forall>j. (\<forall>e\<in>set (take (nat nerr) errloc). e < 8 * len \<longrightarrow> e div 8 \<noteq> j) \<longrightarrow>
          fold (toggle_data_bit len) (take (nat nerr) errloc) data ! j = data ! j) \<and>
     correctbits_bch bch databits errloc nerr =
       Inr (fold (toggle_bit_byte (GF_N bch - ecc_bits bch)) (take (nat nerr) errloc) databits) \<and>
     (\<forall>j. (\<forall>e\<in>set (take (nat nerr) errloc). e < GF_N bch - ecc_bits bch \<longrightarrow> e \<noteq> j) \<longrightarrow>
          fold (toggle_bit_byte (GF_N bch - ecc_bits bch)) (take (nat nerr) errloc) databits ! j
            = databits ! j)"
proof -
  have "GF_N bch - ecc_bits bch < 2 ^ 31"
    using init_bch_n_small [OF assms(3)] by simp
  then have n: "to_int32 (GF_N bch - ecc_bits bch) = int (GF_N bch - ecc_bits bch)"
    by (rule to_int32_small)
  have 1: "correct_bch bch data len errloc nerr =
       Inr (fold (toggle_data_bit len) (take (nat nerr) errloc) data)"
    unfolding correct_bch_def Let_def by (rule correct_bch_fold [OF assms(1,2)])
  have 2: "correctbits_bch bch databits errloc nerr =
       Inr (fold (toggle_bit_byte (GF_N bch - ecc_bits bch)) (take (nat nerr) errloc) databits)"
    unfolding correctbits_bch_def Let_def n by (rule correctbits_bch_fold [OF assms(1,4)])
  show ?thesis
    using 1 2 toggle_data_bits_frame [of "take (nat nerr) errloc" len _ data]
      toggle_bit_bytes_frame [of "take (nat nerr) errloc" "GF_N bch - ecc_bits bch" _ databits]
    by blast
qed

theorem correct_bch_toggles_witness:
  "init_bch 5 1 0 = Some bch51 \<and>
   correct_bch bch51 [0, 0, 0, 0] 4 [9, 33, 3] 3 = Inr [8, 2, 0, 0] \<and>
   correctbits_bch bch51 (replicate 26 0) [9, 33, 3] 3 = Inr ((replicate 26 0)[9 := 1, 3 := 1])"
proof -
  have h: "\<forall>e\<in>set (take (nat 3) [9, 33, 3::nat]). e < 2 ^ 31"
    by simp
  have l: "4 \<le> length [0, 0, 0, 0::u8]"
    by simp
  have d: "GF_N bch51 - ecc_bits bch51 \<le> length (replicate 26 (0::u8))"
    by (simp add: bch51_def)
  note t = correct_bch_toggles [OF h l init_bch_5_1_0 d]
  have a: "fold (toggle_data_bit 4) (take (nat 3) [9, 33, 3]) [0, 0, 0, 0] = [8, 2, 0, 0]"
    by code_simp
  have b: "fold (toggle_bit_byte (GF_N bch51 - ecc_bits bch51)) (take (nat 3) [9, 33, 3])
             (replicate 26 0) = (replicate 26 0)[9 := 1, 3 := 1]"
    by code_simp
  show ?thesis
    using t init_bch_5_1_0 unfolding a b by blast
qed

text \<open>
  A location that does not fit an \<^verbatim>\<open>int\<close> is read as a negative index by \<^verbatim>\<open>correctbits_bch\<close>.
\<close>

lemma correctbits_bch_large_location:
  "correctbits_bch bch51 (replicate 26 0) [4294967295] 1 = Inl (OutOfBounds (- 1))"
  by code_simp

end
